theory Spec2Isabelle
  imports Main "HOL-Library.Multiset"
begin

section \<open>The route collector of packages/core/src/common/webRouterCollector.ts\<close>

text \<open>
  A shallow embedding of the class \<open>WebRouterCollector\<close>. A JavaScript string is a
  \<^typ>\<open>string\<close> (one \<^typ>\<open>char\<close> per code unit, so the patterns covered are
  those written in Latin-1), a JavaScript number that the code only adds, subtracts and
  compares is an \<^typ>\<open>int\<close>. Fields of type \<open>any\<close> that the collector merely copies
  (middleware chains, request and response metadata, the module object) carry no logic
  and are left out of the records.
\<close>

subsection \<open>Strings and patterns\<close>

text \<open>
  \<open>RouterInfo.url\<close> is \<open>string | RegExp\<close>. A regular expression object is kept with
  its object identity (what \<open>===\<close> compares), its source and its flags;
  \<open>toString()\<close> of a regular expression is \<open>/source/flags\<close>.
\<close>

datatype url = Str string | RegExp nat string string

fun toString :: "url \<Rightarrow> string" where
  "toString (Str s) = s"
| "toString (RegExp ref source flags) = ''/'' @ source @ ''/'' @ flags"

fun isRegExp :: "url \<Rightarrow> bool" where
  "isRegExp (Str s) = False"
| "isRegExp (RegExp ref source flags) = True"

text \<open>\<open>a === b\<close> on two patterns: strings by content, objects by identity.\<close>

fun strict_eq :: "url \<Rightarrow> url \<Rightarrow> bool" where
  "strict_eq (Str a) (Str b) = (a = b)"
| "strict_eq (RegExp r1 s1 f1) (RegExp r2 s2 f2) = (r1 = r2)"
| "strict_eq a b = False"

text \<open>Truthiness of a pattern: the empty string is falsy, every object is truthy.\<close>

fun truthy_url :: "url \<Rightarrow> bool" where
  "truthy_url (Str s) = (s \<noteq> [])"
| "truthy_url (RegExp ref source flags) = True"

text \<open>\<open>s.includes(c)\<close> for a one-character needle.\<close>

definition str_includes :: "string \<Rightarrow> char \<Rightarrow> bool" where
  "str_includes s c = (c \<in> set s)"

text \<open>
  \<open>s.split(sep)\<close> for a non-empty separator: the pieces between the successive
  occurrences of \<open>sep\<close>, read from the left; the empty string splits into one empty
  piece.
\<close>

function js_split :: "string \<Rightarrow> string \<Rightarrow> string list" where
  "js_split sep s =
     (if s = [] then [[]]
      else if sep \<noteq> [] \<and> take (length sep) s = sep
           then [] # js_split sep (drop (length sep) s)
      else (case js_split sep (tl s) of
              [] \<Rightarrow> [[hd s]]
            | f # fs \<Rightarrow> (hd s # f) # fs))"
  by pat_completeness auto
termination
  by (relation "measure (\<lambda>(sep, s). length s)") auto

declare js_split.simps [simp del]

text \<open>\<open>s.replace(/\**$/, '')\<close>: the run of stars at the end of the string is removed.\<close>

definition strip_stars :: "string \<Rightarrow> string" where
  "strip_stars s = rev (dropWhile (\<lambda>c. c = CHR ''*'') (rev s))"

text \<open>The class \<open>\w\<close> of a regular expression without flags.\<close>

definition word_char :: "char \<Rightarrow> bool" where
  "word_char c =
     (c \<in> set ''abcdefghijklmnopqrstuvwxyzABCDEFGHIJKLMNOPQRSTUVWXYZ0123456789_'')"

text \<open>
  \<open>s.replace(/:\w+/, '123')\<close>: the first colon that a word character follows is
  replaced, together with the word characters after it, by \<open>123\<close>.
\<close>

fun replace_param :: "string \<Rightarrow> string" where
  "replace_param [] = []"
| "replace_param (c # cs) =
     (if c = CHR '':'' \<and> cs \<noteq> [] \<and> word_char (hd cs)
      then ''123'' @ dropWhile word_char cs
      else c # replace_param cs)"

text \<open>
  The dot of a regular expression matches every character but a line terminator;
  of the four line terminators, line feed and carriage return are Latin-1.
\<close>

definition line_terminator :: "char \<Rightarrow> bool" where
  "line_terminator c = (c = CHR 0x0A \<or> c = CHR 0x0D)"

text \<open>
  \<open>s.replace(/:.+$/, '')\<close>: the string is cut at the first colon whose rest is not
  empty and runs to the end of the string without a line terminator.
\<close>

fun strip_param :: "string \<Rightarrow> string" where
  "strip_param [] = []"
| "strip_param (c # cs) =
     (if c = CHR '':'' \<and> cs \<noteq> [] \<and> \<not> list_ex line_terminator cs
      then []
      else c # strip_param cs)"

subsection \<open>Route entries\<close>

text \<open>
  The interface \<open>RouterInfo\<close>. \<open>id\<close> and \<open>method\<close> are written \<open>id'\<close> and
  \<open>method'\<close>.
\<close>

record router_info =
  id' :: string
  prefix :: string
  routerName :: string
  url :: url
  requestMethod :: string
  method' :: string
  description :: string
  summary :: string
  handlerName :: string
  funcHandlerName :: string
  controllerId :: string

text \<open>
  The objects that the \<open>map\<close> callback of \<open>sortRouter\<close> builds: the entry's own
  properties (\<open>...item\<close>) and the five computed ones, \<open>_pureRouter\<close>, \<open>_level\<close>,
  \<open>_paramString\<close>, \<open>_category\<close> and \<open>_weight\<close>, written without the underscore.
\<close>

record sort_info = router_info +
  pureRouter :: string
  level :: int
  paramString :: string
  category :: int
  weight :: int

subsection \<open>sortRouter\<close>

text \<open>The loop over \<open>weightArr\<close>: a fragment counts unless it is empty or holds a colon or a star.\<close>

fun weight_of :: "string list \<Rightarrow> int" where
  "weight_of [] = 0"
| "weight_of (fragment # rest) =
     (if fragment = [] \<or> str_includes fragment CHR '':'' \<or> str_includes fragment CHR ''*''
      then 0 + weight_of rest
      else 1 + weight_of rest)"

definition sort_map :: "router_info \<Rightarrow> sort_info" where
  "sort_map item =
     (let urlString = toString (url item);
          weightArr = (if isRegExp (url item) then js_split [CHR 0x5C, CHR ''/''] urlString
                       else js_split ''/'' urlString);
          weight = weight_of weightArr;
          category = 2;
          paramString = (if str_includes urlString CHR '':'' then strip_param urlString else []);
          category = (if paramString \<noteq> [] then 1 else category);
          category = (if str_includes urlString CHR ''*'' then 0 else category)
      in router_info.extend item
           (sort_info.fields
              (replace_param (strip_stars urlString))
              (int (length (js_split ''/'' urlString)) - 1)
              paramString
              category
              weight))"

text \<open>The comparator handed to \<open>sort\<close>.\<close>

definition sort_cmp :: "sort_info \<Rightarrow> sort_info \<Rightarrow> int" where
  "sort_cmp handlerA handlerB =
     (if category handlerA \<noteq> category handlerB
        then category handlerB - category handlerA
      else if weight handlerA \<noteq> weight handlerB
        then weight handlerB - weight handlerA
      else if level handlerA = level handlerB
        then (if pureRouter handlerB = pureRouter handlerA
              then int (length (toString (url handlerA))) - int (length (toString (url handlerB)))
              else int (length (pureRouter handlerB)) - int (length (pureRouter handlerA)))
      else level handlerB - level handlerA)"

text \<open>
  \<open>Array.prototype.sort\<close> belongs to the language runtime, not to this repository.
  ECMAScript settles its result where the comparator is a consistent one for the values
  of the array: \<open>comparefn(a, a)\<close> is 0, being equal is symmetric and transitive, and
  so are being less and being greater. The result is then sorted by the comparator and
  stable: values that compare equal stay in the order in which they came. With any other
  comparator the order is the implementation's own, and all that is settled is that the
  result holds the values of the array.
\<close>

definition consistent_on :: "('a \<Rightarrow> 'a \<Rightarrow> int) \<Rightarrow> 'a set \<Rightarrow> bool" where
  "consistent_on comparefn S =
     (\<forall>a\<in>S. \<forall>b\<in>S. \<forall>c\<in>S.
        comparefn a a = 0 \<and>
        (comparefn a b = 0 \<longrightarrow> comparefn b a = 0) \<and>
        (comparefn a b = 0 \<and> comparefn b c = 0 \<longrightarrow> comparefn a c = 0) \<and>
        (comparefn a b < 0 \<and> comparefn b c < 0 \<longrightarrow> comparefn a c < 0) \<and>
        (comparefn a b > 0 \<and> comparefn b c > 0 \<longrightarrow> comparefn a c > 0))"

definition ecma_sort :: "(('a \<Rightarrow> 'a \<Rightarrow> int) \<Rightarrow> 'a list \<Rightarrow> 'a list) \<Rightarrow> bool" where
  "ecma_sort runtime_sort =
     (\<forall>comparefn xs.
        mset (runtime_sort comparefn xs) = mset xs \<and>
        (consistent_on comparefn (set xs) \<longrightarrow>
           sorted_wrt (\<lambda>a b. comparefn a b \<le> 0) (runtime_sort comparefn xs) \<and>
           (\<forall>a\<in>set xs. filter (\<lambda>b. comparefn a b = 0) (runtime_sort comparefn xs) =
                        filter (\<lambda>b. comparefn a b = 0) xs)))"

text \<open>
  One sort that does what ECMAScript settles (\<open>ecma_sort array_sort\<close> is proved below):
  insertion sort as it is written on an array. Each element in turn moves left past the
  elements of the sorted front part that the comparator puts after it
  (\<open>comparefn(tmp, element) > 0\<close>) and stops at the first that it does not;
  \<open>insert_back\<close> works on the front part read from its right end. Where the comparator
  is consistent, this is the result of every runtime (\<open>ecma_sort_settled\<close>, proved
  below); it stands for the runtime's sort there and nowhere else.
\<close>

fun insert_back :: "('a \<Rightarrow> 'a \<Rightarrow> int) \<Rightarrow> 'a \<Rightarrow> 'a list \<Rightarrow> 'a list" where
  "insert_back comparefn element [] = [element]"
| "insert_back comparefn element (tmp # front) =
     (if comparefn tmp element > 0 then tmp # insert_back comparefn element front
      else element # tmp # front)"

definition array_sort :: "('a \<Rightarrow> 'a \<Rightarrow> int) \<Rightarrow> 'a list \<Rightarrow> 'a list" where
  "array_sort comparefn xs = rev (foldl (\<lambda>front element. insert_back comparefn element front) [] xs)"

text \<open>
  \<open>sortRouter\<close>: \<open>urlMatchList.map(...).sort(...)\<close>. The comparator \<open>sort_cmp\<close> is not
  consistent for every list, so the sort is the runtime's, a parameter here; the theorems
  that speak of the order take it to be an \<open>ecma_sort\<close> and the comparator to be
  consistent for the list.
\<close>

type_synonym sorter = "(sort_info \<Rightarrow> sort_info \<Rightarrow> int) \<Rightarrow> sort_info list \<Rightarrow> sort_info list"

definition sortRouter :: "sorter \<Rightarrow> router_info list \<Rightarrow> sort_info list" where
  "sortRouter runtime_sort urlMatchList = runtime_sort sort_cmp (map sort_map urlMatchList)"

subsection \<open>The collector's state, its errors and its declarations\<close>

text \<open>
  The interface \<open>RouterPriority\<close> (\<open>prefix\<close>, \<open>priority\<close>, \<open>controllerId\<close>; the field
  names carry the record's initials, since \<open>RouterInfo\<close> has fields of the same names).
\<close>

record router_priority =
  rp_prefix :: string
  rp_priority :: int
  rp_controllerId :: string

text \<open>\<open>RouterCollectorOptions\<close>; an option that is not set is \<open>undefined\<close>.\<close>

record router_collector_options =
  includeFunctionRouter :: bool
  globalPrefix :: "string option"

text \<open>
  The instance: the fields \<open>isReady\<close>, \<open>routes\<close>, \<open>routesPriority\<close> and \<open>options\<close>.
  \<open>baseDir\<close> only decides whether a container loads the files of a directory before the
  decorator store is read; the store is an input here, so the field is left out.
\<close>

record web_router_collector =
  isReady :: bool
  routes :: "string \<rightharpoonup> router_info list"
  routesPriority :: "router_priority list"
  options :: router_collector_options

text \<open>The constructor.\<close>

definition new_collector :: "router_collector_options \<Rightarrow> web_router_collector" where
  "new_collector opts =
     \<lparr>isReady = False, routes = Map.empty, routesPriority = [], options = opts\<rparr>"

text \<open>
  What the code throws: the two errors of \<open>../error\<close>, and the \<open>TypeError\<close> of the
  runtime when a property of \<open>undefined\<close> is read. A throw leaves the instance as the
  statements before it made it, so a thrown error comes with the instance:
  \<open>Inl (e, this)\<close>.
\<close>

datatype error =
    MidwayCommonError string
  | MidwayDuplicateRouteError string string string
  | TypeError

type_synonym 'a thrown = "(error \<times> web_router_collector) + 'a"

text \<open>
  What the decorator store gives for a module: \<open>getProviderName\<close>, \<open>getProviderUUId\<close>
  and the class metadata under \<open>CONTROLLER_KEY\<close> and \<open>WEB_ROUTER_KEY\<close>
  (\<open>ControllerOption\<close> and \<open>RouterOption[]\<close>), as far as \<open>collectRoute\<close> reads them.
  A string that the code reads through \<open>x || ''\<close> or \<open>x || '/'\<close> is empty when it is
  not set; metadata that is missing or not iterable is an empty list, the loop over it
  being skipped. The code reads \<open>controllerOption.routerOptions.middleware\<close> without
  a guard, so the controller option and its router options are taken to be there.
\<close>

record router_option =
  ro_path :: url
  ro_requestMethod :: string
  ro_method :: string
  ro_routerName :: string
  ro_description :: string
  ro_summary :: string
  ro_ignoreGlobalPrefix :: bool

record controller_module =
  cm_providerName :: string
  cm_providerUUId :: string
  cm_prefix :: string
  cm_ignoreGlobalPrefix :: bool
  cm_webRouterInfo :: "router_option list"

text \<open>
  The same for a function module: the metadata under \<open>FUNC_KEY\<close>, each trigger with
  \<open>methodName\<close>, \<open>metadata.path\<close> and \<open>metadata.method\<close>.
\<close>

record trigger_metadata =
  tm_methodName :: string
  tm_path :: "url option"
  tm_method :: "string option"

record func_module =
  fm_providerName :: string
  fm_providerUUId :: string
  fm_webRouterInfo :: "trigger_metadata list"

text \<open>The store: \<open>listModule(CONTROLLER_KEY)\<close> and \<open>listModule(FUNC_KEY)\<close>.\<close>

record decorator_store =
  controllerModules :: "controller_module list"
  fnModules :: "func_module list"

subsection \<open>checkDuplicateAndPush\<close>

definition checkDuplicateAndPush ::
    "string \<Rightarrow> router_info \<Rightarrow> web_router_collector \<Rightarrow> web_router_collector thrown" where
  "checkDuplicateAndPush group_prefix routerInfo this =
     (case routes this group_prefix of
        None \<Rightarrow> Inl (TypeError, this)
      | Some prefixList \<Rightarrow>
          (let matched = filter (\<lambda>item.
                   truthy_url (url routerInfo) \<and>
                   requestMethod routerInfo \<noteq> [] \<and>
                   strict_eq (url item) (url routerInfo) \<and>
                   requestMethod item = requestMethod routerInfo) prefixList
           in if matched \<noteq> []
              then Inl (MidwayDuplicateRouteError
                          (requestMethod routerInfo @ '' '' @ toString (url routerInfo))
                          (handlerName (hd matched))
                          (handlerName routerInfo), this)
              else Inr (this\<lparr>routes := (routes this)(group_prefix \<mapsto> prefixList @ [routerInfo])\<rparr>)))"

subsection \<open>collectRoute and collectFunctionRoute\<close>

text \<open>
  \<open>if (!this.routes.has(prefix)) { this.routes.set(prefix, []); this.routesPriority.push({...}) }\<close>,
  which the code writes out three times.
\<close>

definition set_prefix ::
    "string \<Rightarrow> int \<Rightarrow> string \<Rightarrow> web_router_collector \<Rightarrow> web_router_collector" where
  "set_prefix group_prefix pri cid this =
     (if routes this group_prefix = None
      then this\<lparr>routes := (routes this)(group_prefix \<mapsto> []),
                routesPriority := routesPriority this @
                  [\<lparr>rp_prefix = group_prefix, rp_priority = pri, rp_controllerId = cid\<rparr>]\<rparr>
      else this)"

text \<open>The loop over \<open>webRouterInfo\<close>; a throw of \<open>checkDuplicateAndPush\<close> ends it.\<close>

fun collect_webRouters ::
    "string \<Rightarrow> string \<Rightarrow> string \<Rightarrow> string \<Rightarrow> router_option list \<Rightarrow>
     web_router_collector \<Rightarrow> web_router_collector thrown" where
  "collect_webRouters uuid cid group_prefix ignorePrefix [] this = Inr this"
| "collect_webRouters uuid cid group_prefix ignorePrefix (webRouter # rest) this =
     (let data = \<lparr>id' = uuid,
                   prefix = (if ro_ignoreGlobalPrefix webRouter then ignorePrefix else group_prefix),
                   routerName = ro_routerName webRouter,
                   url = ro_path webRouter,
                   requestMethod = ro_requestMethod webRouter,
                   method' = ro_method webRouter,
                   description = ro_description webRouter,
                   summary = ro_summary webRouter,
                   handlerName = cid @ ''.'' @ ro_method webRouter,
                   funcHandlerName = cid @ ''.'' @ ro_method webRouter,
                   controllerId = cid\<rparr>
      in case checkDuplicateAndPush (prefix data) data this of
           Inl t \<Rightarrow> Inl t
         | Inr this' \<Rightarrow> collect_webRouters uuid cid group_prefix ignorePrefix rest this')"

text \<open>
  \<open>collectRoute(module)\<close>, as \<open>analyze\<close> calls it (\<open>functionMeta\<close> is false).
  \<open>joinURLPath\<close> is imported from \<open>../util\<close> and is a parameter here. The local
  \<open>priority\<close> is declared and never assigned.
\<close>

definition collectRoute ::
    "(string option \<Rightarrow> string \<Rightarrow> string) \<Rightarrow> controller_module \<Rightarrow>
     web_router_collector \<Rightarrow> web_router_collector thrown" where
  "collectRoute joinURLPath module this =
     (let cid = cm_providerName module;
          uuid = cm_providerUUId module;
          priority = (None :: int option);
          controllerIgnoreGlobalPrefix = cm_ignoreGlobalPrefix module;
          group_prefix = joinURLPath (globalPrefix (options this))
                           (if cm_prefix module \<noteq> [] then cm_prefix module else ''/'');
          ignorePrefix = (if cm_prefix module \<noteq> [] then cm_prefix module else ''/'');
          group_prefix = (if controllerIgnoreGlobalPrefix then ignorePrefix else group_prefix)
      in if str_includes group_prefix CHR ''*''
         then Inl (MidwayCommonError
                     (''Router prefix '' @ group_prefix @ '' can'' @ [CHR 0x27] @ ''t set string with *''),
                   this)
         else
           (let this1 = set_prefix group_prefix
                          (if group_prefix = ''/'' \<and> priority = None then - 999 else 0) cid this;
                this2 = set_prefix ignorePrefix
                          (if ignorePrefix = ''/'' \<and> priority = None then - 999 else 0) cid this1
            in collect_webRouters uuid cid group_prefix ignorePrefix (cm_webRouterInfo module) this2))"

text \<open>
  The loop of \<open>collectFunctionRoute(module)\<close>, as \<open>analyze\<close> calls it: with
  \<open>functionMeta\<close> false a trigger without a path adds nothing.
\<close>

fun collect_triggers ::
    "string \<Rightarrow> string \<Rightarrow> string \<Rightarrow> trigger_metadata list \<Rightarrow>
     web_router_collector \<Rightarrow> web_router_collector thrown" where
  "collect_triggers uuid cid group_prefix [] this = Inr this"
| "collect_triggers uuid cid group_prefix (webRouter # rest) this =
     (case tm_path webRouter of
        None \<Rightarrow> collect_triggers uuid cid group_prefix rest this
      | Some p \<Rightarrow>
          if truthy_url p
          then (let data = \<lparr>id' = uuid,
                             prefix = group_prefix,
                             routerName = [],
                             url = p,
                             requestMethod = (case tm_method webRouter of None \<Rightarrow> ''get'' | Some m \<Rightarrow> m),
                             method' = tm_methodName webRouter,
                             description = [],
                             summary = [],
                             handlerName = cid @ ''.'' @ tm_methodName webRouter,
                             funcHandlerName = cid @ ''.'' @ tm_methodName webRouter,
                             controllerId = cid\<rparr>
                in case checkDuplicateAndPush group_prefix data this of
                     Inl t \<Rightarrow> Inl t
                   | Inr this' \<Rightarrow> collect_triggers uuid cid group_prefix rest this')
          else collect_triggers uuid cid group_prefix rest this)"

definition collectFunctionRoute ::
    "func_module \<Rightarrow> web_router_collector \<Rightarrow> web_router_collector thrown" where
  "collectFunctionRoute module this =
     (let cid = fm_providerName module;
          uuid = fm_providerUUId module;
          group_prefix = ''/'';
          this1 = set_prefix group_prefix (- 999) cid this
      in collect_triggers uuid cid group_prefix (fm_webRouterInfo module) this1)"

subsection \<open>analyze\<close>

text \<open>The two loops over the modules.\<close>

fun collect_controllers ::
    "(string option \<Rightarrow> string \<Rightarrow> string) \<Rightarrow> controller_module list \<Rightarrow>
     web_router_collector \<Rightarrow> web_router_collector thrown" where
  "collect_controllers joinURLPath [] this = Inr this"
| "collect_controllers joinURLPath (module # rest) this =
     (case collectRoute joinURLPath module this of
        Inl t \<Rightarrow> Inl t
      | Inr this' \<Rightarrow> collect_controllers joinURLPath rest this')"

fun collect_functions ::
    "func_module list \<Rightarrow> web_router_collector \<Rightarrow> web_router_collector thrown" where
  "collect_functions [] this = Inr this"
| "collect_functions (module # rest) this =
     (case collectFunctionRoute module this of
        Inl t \<Rightarrow> Inl t
      | Inr this' \<Rightarrow> collect_functions rest this')"

text \<open>
  \<open>this.routesPriority.filter(item => ...)\<close>: the callback reads the entry list of the
  item's prefix (a \<open>TypeError\<close> if the table has none), keeps the item when the list is
  not empty and deletes the prefix from the table otherwise. The result is the kept
  items with the table, or the error with the table as the callbacks so far left it.
\<close>

fun filter_empty ::
    "router_priority list \<Rightarrow> (string \<rightharpoonup> router_info list) \<Rightarrow>
     (error \<times> (string \<rightharpoonup> router_info list)) + (router_priority list \<times> (string \<rightharpoonup> router_info list))" where
  "filter_empty [] table = Inr ([], table)"
| "filter_empty (item # rest) table =
     (case table (rp_prefix item) of
        None \<Rightarrow> Inl (TypeError, table)
      | Some prefixList \<Rightarrow>
          if length prefixList > 0
          then (case filter_empty rest table of
                  Inl t \<Rightarrow> Inl t
                | Inr (kept, table') \<Rightarrow> Inr (item # kept, table'))
          else filter_empty rest (table(rp_prefix item := None)))"

text \<open>
  The comparator of \<open>// sort prefix\<close>. It compares one number of each side and is
  consistent for every list, so the result of the sort is settled: it is \<open>array_sort\<close>
  (\<open>prefix_sort_settled\<close>, proved below).
\<close>

definition prefix_cmp :: "router_priority \<Rightarrow> router_priority \<Rightarrow> int" where
  "prefix_cmp routeA routeB = int (length (rp_prefix routeB)) - int (length (rp_prefix routeA))"

text \<open>
  \<open>analyze\<close>, with the runtime's sort for \<open>sortRouter\<close>. The table is declared
  \<open>Map<string, RouterInfo[]>\<close>; of the objects that \<open>sortRouter\<close> returns it keeps the
  \<open>RouterInfo\<close> part.
\<close>

definition analyze ::
    "sorter \<Rightarrow> (string option \<Rightarrow> string \<Rightarrow> string) \<Rightarrow> decorator_store \<Rightarrow>
     web_router_collector \<Rightarrow> web_router_collector thrown" where
  "analyze runtime_sort joinURLPath store this =
     (case collect_controllers joinURLPath (controllerModules store) this of
        Inl t \<Rightarrow> Inl t
      | Inr this1 \<Rightarrow>
          (case (if includeFunctionRouter (options this1)
                 then collect_functions (fnModules store) this1 else Inr this1) of
             Inl t \<Rightarrow> Inl t
           | Inr this2 \<Rightarrow>
               (case filter_empty (routesPriority this2) (routes this2) of
                  Inl (e, table) \<Rightarrow> Inl (e, this2\<lparr>routes := table\<rparr>)
                | Inr (kept, table) \<Rightarrow>
                    Inr (this2\<lparr>routes := (\<lambda>group_prefix.
                                  map_option (\<lambda>routerInfo. map router_info.truncate
                                                  (sortRouter runtime_sort routerInfo))
                                    (table group_prefix)),
                               routesPriority := array_sort prefix_cmp kept\<rparr>))))"

text \<open>The instance as the two loops of \<open>analyze\<close> leave it.\<close>

definition collected ::
    "(string option \<Rightarrow> string \<Rightarrow> string) \<Rightarrow> decorator_store \<Rightarrow>
     web_router_collector \<Rightarrow> web_router_collector thrown" where
  "collected J store this =
     (case collect_controllers J (controllerModules store) this of
        Inl t \<Rightarrow> Inl t
      | Inr this1 \<Rightarrow>
          (if includeFunctionRouter (options this1)
           then collect_functions (fnModules store) this1 else Inr this1))"

subsection \<open>The three read operations\<close>

text \<open>
  \<open>getRoutePriorityList\<close>, \<open>getRouterTable\<close> and \<open>getFlattenRouterTable\<close> are
  \<open>async\<close> functions with one body but for the value returned:
  \<open>if (!this.isReady) { await this.analyze(); this.isReady = true; } return ...\<close>.
  What each returns of an instance is a \<open>view\<close>.
\<close>

datatype read_op = GetRoutePriorityList | GetRouterTable | GetFlattenRouterTable

datatype view =
    PriorityList (priority_list: "router_priority list")
  | RouterTable (router_table: "string \<rightharpoonup> router_info list")
  | FlattenRouterTable (flatten_list: "router_info option list")

text \<open>
  The loop of \<open>getFlattenRouterTable\<close>: \<open>routeArr.concat(this.routes.get(prefix))\<close>
  appends the entries of the list; for a prefix without a list it appends the one value
  \<open>undefined\<close>, hence the \<open>option\<close>.
\<close>

definition flatten_table :: "web_router_collector \<Rightarrow> router_info option list" where
  "flatten_table this =
     concat (map (\<lambda>routerPriority.
                    case routes this (rp_prefix routerPriority) of
                      None \<Rightarrow> [None]
                    | Some l \<Rightarrow> map Some l)
                 (routesPriority this))"

fun view_of :: "read_op \<Rightarrow> web_router_collector \<Rightarrow> view" where
  "view_of GetRoutePriorityList this = PriorityList (routesPriority this)"
| "view_of GetRouterTable this = RouterTable (routes this)"
| "view_of GetFlattenRouterTable this = FlattenRouterTable (flatten_table this)"

text \<open>
  A call runs in two parts, and other calls may run between them. The first part runs at
  the call, as far as the \<open>await\<close>: the test of \<open>isReady\<close> and, when the instance is
  not ready, the call \<open>this.analyze()\<close>, which without a \<open>baseDir\<close> has no \<open>await\<close>
  of its own and so runs the whole pass. The operation is then suspended, with the pass
  thrown or returned (\<open>Awaits\<close>); on a ready instance it goes straight to its
  \<open>return\<close> (\<open>Returns\<close>).
\<close>

datatype call_state = Returns | Awaits "error option"

definition read_call ::
    "sorter \<Rightarrow> (string option \<Rightarrow> string \<Rightarrow> string) \<Rightarrow> decorator_store \<Rightarrow>
     web_router_collector \<Rightarrow> call_state \<times> web_router_collector" where
  "read_call runtime_sort joinURLPath store this =
     (if \<not> isReady this
      then (case analyze runtime_sort joinURLPath store this of
              Inl (e, this') \<Rightarrow> (Awaits (Some e), this')
            | Inr this' \<Rightarrow> (Awaits None, this'))
      else (Returns, this))"

text \<open>
  The second part runs when the operation is resumed, on the instance as it is by then:
  the error of the pass is thrown, or \<open>this.isReady = true\<close> runs and the operation
  returns its view of the instance.
\<close>

definition read_resume ::
    "read_op \<Rightarrow> error option \<Rightarrow> web_router_collector \<Rightarrow> (view \<times> web_router_collector) thrown" where
  "read_resume op outcome this =
     (case outcome of
        Some e \<Rightarrow> Inl (e, this)
      | None \<Rightarrow> (let this' = this\<lparr>isReady := True\<rparr> in Inr (view_of op this', this')))"

text \<open>
  A call that no other call overlaps: it is resumed before anything else runs on the
  instance.
\<close>

definition read_alone ::
    "sorter \<Rightarrow> (string option \<Rightarrow> string \<Rightarrow> string) \<Rightarrow> decorator_store \<Rightarrow> read_op \<Rightarrow>
     web_router_collector \<Rightarrow> (view \<times> web_router_collector) thrown" where
  "read_alone runtime_sort joinURLPath store op this =
     (case read_call runtime_sort joinURLPath store this of
        (Returns, this') \<Rightarrow> Inr (view_of op this', this')
      | (Awaits outcome, this') \<Rightarrow> read_resume op outcome this')"

subsection \<open>Calls that overlap\<close>

text \<open>
  The instance under a sequence of calls and resumptions. A call runs its first part;
  if it is suspended, the way its pass ended joins the queue. A resumption takes the
  oldest suspended operation and runs its second part: the suspended operations are
  resumed in the order in which they were suspended. \<open>passes\<close> counts the calls of
  \<open>analyze\<close>, as a counting stub in the place of the decorator store would.
\<close>

record facade_run =
  inst :: web_router_collector
  pending :: "error option list"
  passes :: nat

datatype event = Call decorator_store | Resume

fun step ::
    "sorter \<Rightarrow> (string option \<Rightarrow> string \<Rightarrow> string) \<Rightarrow> event \<Rightarrow> facade_run \<Rightarrow> facade_run" where
  "step runtime_sort joinURLPath (Call store) m =
     (if \<not> isReady (inst m)
      then (case analyze runtime_sort joinURLPath store (inst m) of
              Inl (e, this') \<Rightarrow>
                m\<lparr>inst := this', pending := pending m @ [Some e], passes := Suc (passes m)\<rparr>
            | Inr this' \<Rightarrow>
                m\<lparr>inst := this', pending := pending m @ [None], passes := Suc (passes m)\<rparr>)
      else m)"
| "step runtime_sort joinURLPath Resume m =
     (case pending m of
        [] \<Rightarrow> m
      | None # rest \<Rightarrow> m\<lparr>inst := (inst m)\<lparr>isReady := True\<rparr>, pending := rest\<rparr>
      | Some e # rest \<Rightarrow> m\<lparr>pending := rest\<rparr>)"

definition run ::
    "sorter \<Rightarrow> (string option \<Rightarrow> string \<Rightarrow> string) \<Rightarrow> event list \<Rightarrow> facade_run \<Rightarrow> facade_run" where
  "run runtime_sort joinURLPath events m = foldl (\<lambda>m' ev. step runtime_sort joinURLPath ev m') m events"

definition start_run :: "web_router_collector \<Rightarrow> facade_run" where
  "start_run this = \<lparr>inst = this, pending = [], passes = 0\<rparr>"

subsection \<open>The orders and conditions that the properties speak of\<close>

text \<open>
  The keys of a pattern as the specification words them. The category: 0 if the pattern
  holds a wildcard, 1 if it holds a parameter sigil and no wildcard, 2 if it is fully
  literal. The weight: the number of the pieces between the path separators that are
  plain literals (the separator of a pattern object is written \<open>\/\<close>). The depth: the
  number of path separators. The normalized form: the pattern without the run of
  wildcards at its end and with its first parameter segment replaced by \<open>123\<close>.
\<close>

definition claimed_category :: "url \<Rightarrow> int" where
  "claimed_category u =
     (if CHR ''*'' \<in> set (toString u) then 0
      else if CHR '':'' \<in> set (toString u) then 1 else 2)"

definition specificityWeight :: "url \<Rightarrow> int" where
  "specificityWeight u =
     weight_of (js_split (if isRegExp u then [CHR 0x5C, CHR ''/''] else ''/'') (toString u))"

definition depth :: "url \<Rightarrow> int" where
  "depth u = int (count_list (toString u) CHR ''/'')"

definition normalizedForm :: "url \<Rightarrow> string" where
  "normalizedForm u = replace_param (strip_stars (toString u))"

text \<open>
  The order as the specification words it: descending category, weight and depth, then
  the longer normalized form, and, when the lengths of the normalized forms tie as well,
  the shorter raw pattern.
\<close>

definition worded_before :: "url \<Rightarrow> url \<Rightarrow> bool" where
  "worded_before a b =
     (claimed_category a > claimed_category b \<or> (claimed_category a = claimed_category b \<and>
       (specificityWeight a > specificityWeight b \<or> (specificityWeight a = specificityWeight b \<and>
         (depth a > depth b \<or> (depth a = depth b \<and>
            (length (normalizedForm a) > length (normalizedForm b) \<or>
              (length (normalizedForm a) = length (normalizedForm b) \<and>
                 length (toString a) < length (toString b)))))))))"

text \<open>
  The order with the last step as the code takes it: the shorter raw pattern comes
  first when the normalized forms are the same string. Two patterns tie when neither is
  before the other.
\<close>

definition amended_before :: "url \<Rightarrow> url \<Rightarrow> bool" where
  "amended_before a b =
     (claimed_category a > claimed_category b \<or> (claimed_category a = claimed_category b \<and>
       (specificityWeight a > specificityWeight b \<or> (specificityWeight a = specificityWeight b \<and>
         (depth a > depth b \<or> (depth a = depth b \<and>
            (length (normalizedForm a) > length (normalizedForm b) \<or>
              (normalizedForm a = normalizedForm b \<and>
                 length (toString a) < length (toString b)))))))))"

definition tie :: "url \<Rightarrow> url \<Rightarrow> bool" where
  "tie a b = (\<not> amended_before a b \<and> \<not> amended_before b a)"

text \<open>Tying is transitive among the patterns of a list: the ties form classes.\<close>

definition ties_form_classes :: "router_info list \<Rightarrow> bool" where
  "ties_form_classes l =
     (\<forall>a\<in>set l. \<forall>b\<in>set l. \<forall>c\<in>set l.
        tie (url a) (url b) \<and> tie (url b) (url c) \<longrightarrow> tie (url a) (url c))"

text \<open>A pattern that begins with the parameter sigil.\<close>

fun starts_with_sigil :: "string \<Rightarrow> bool" where
  "starts_with_sigil [] = False"
| "starts_with_sigil (c # cs) = (c = CHR '':'')"

definition no_leading_sigil :: "router_info list \<Rightarrow> bool" where
  "no_leading_sigil l = list_all (\<lambda>x. \<not> starts_with_sigil (toString (url x))) l"

text \<open>
  The three kinds of pattern as the specification words them: fully literal (no
  parameter sigil and no wildcard), parameterized (a parameter sigil and no wildcard),
  wildcard.
\<close>

definition literal_pattern :: "string \<Rightarrow> bool" where
  "literal_pattern s = (CHR '':'' \<notin> set s \<and> CHR ''*'' \<notin> set s)"

definition param_pattern :: "string \<Rightarrow> bool" where
  "param_pattern s = (CHR '':'' \<in> set s \<and> CHR ''*'' \<notin> set s)"

definition wildcard_pattern :: "string \<Rightarrow> bool" where
  "wildcard_pattern s = (CHR ''*'' \<in> set s)"

text \<open>
  The conflict as the specification words it: an entry of the group has the same
  pattern and the same non-empty method as the incoming entry.
\<close>

definition claimed_conflict :: "router_info list \<Rightarrow> router_info \<Rightarrow> bool" where
  "claimed_conflict prefixList routerInfo =
     list_ex (\<lambda>item. strict_eq (url item) (url routerInfo) \<and>
                     requestMethod item = requestMethod routerInfo \<and>
                     requestMethod routerInfo \<noteq> []) prefixList"

text \<open>Two method strings that differ at most in the case of their letters.\<close>

definition lower_char :: "char \<Rightarrow> char" where
  "lower_char c =
     (if c \<in> set ''ABCDEFGHIJKLMNOPQRSTUVWXYZ'' then char_of (of_char c + (32 :: nat)) else c)"

definition same_ignoring_case :: "string \<Rightarrow> string \<Rightarrow> bool" where
  "same_ignoring_case a b = (map lower_char a = map lower_char b)"

text \<open>
  The groups keep to this: the priority list names every prefix of the table once,
  and no other prefix.
\<close>

definition group_inv :: "web_router_collector \<Rightarrow> bool" where
  "group_inv this =
     (distinct (map rp_prefix (routesPriority this)) \<and>
      set (map rp_prefix (routesPriority this)) = dom (routes this))"

text \<open>The priority that the code gives to a prefix.\<close>

definition priority_ok :: "router_priority \<Rightarrow> bool" where
  "priority_ok g = (rp_priority g = (if rp_prefix g = ''/'' then - 999 else 0))"

text \<open>The instance that an operation leaves, whether it threw or returned.\<close>

fun instance_after :: "web_router_collector thrown \<Rightarrow> web_router_collector" where
  "instance_after (Inl (e, this)) = this"
| "instance_after (Inr this) = this"


text \<open>
  The comparator of \<open>sortRouter\<close> is consistent for the entries of every group that
  the priority list of the instance names.
\<close>

definition groups_consistent :: "web_router_collector \<Rightarrow> bool" where
  "groups_consistent this =
     list_all (\<lambda>routerPriority.
                 case routes this (rp_prefix routerPriority) of
                   None \<Rightarrow> True
                 | Some routerInfo \<Rightarrow> consistent_on sort_cmp (set (map sort_map routerInfo)))
              (routesPriority this)"

subsection \<open>Sample declarations\<close>

text \<open>
  Modelled from the spec: \<open>joinURLPath\<close> of \<open>../util\<close>, whose source is not at hand
  and of which the specification says that it joins the global prefix with the
  declaration's own prefix. The samples below use it without a global prefix, where it
  gives the own prefix back.
\<close>

definition joinURLPath :: "string option \<Rightarrow> string \<Rightarrow> string" where
  "joinURLPath g p = (case g of None \<Rightarrow> p | Some gp \<Rightarrow> gp @ p)"

definition no_options :: router_collector_options where
  "no_options = \<lparr>includeFunctionRouter = False, globalPrefix = None\<rparr>"

text \<open>An entry of the root group with a method, a pattern and a handler.\<close>

definition route :: "string \<Rightarrow> string \<Rightarrow> string \<Rightarrow> router_info" where
  "route m u h =
     \<lparr>id' = [], prefix = ''/'', routerName = [], url = Str u, requestMethod = m,
      method' = [], description = [], summary = [], handlerName = h,
      funcHandlerName = h, controllerId = []\<rparr>"

text \<open>An instance that holds one group.\<close>

definition one_group :: "string \<Rightarrow> router_info list \<Rightarrow> web_router_collector" where
  "one_group p entries =
     \<lparr>isReady = False, routes = [p \<mapsto> entries],
      routesPriority = [\<lparr>rp_prefix = p, rp_priority = (if p = ''/'' then - 999 else 0),
                         rp_controllerId = []\<rparr>],
      options = no_options\<rparr>"

text \<open>A member declaration and a controller that ignores the global prefix.\<close>

definition member :: "string \<Rightarrow> string \<Rightarrow> string \<Rightarrow> router_option" where
  "member m u f =
     \<lparr>ro_path = Str u, ro_requestMethod = m, ro_method = f, ro_routerName = [],
      ro_description = [], ro_summary = [], ro_ignoreGlobalPrefix = False\<rparr>"

definition controller :: "string \<Rightarrow> string \<Rightarrow> router_option list \<Rightarrow> controller_module" where
  "controller name p members =
     \<lparr>cm_providerName = name, cm_providerUUId = name, cm_prefix = p,
      cm_ignoreGlobalPrefix = True, cm_webRouterInfo = members\<rparr>"

definition controllers_only :: "controller_module list \<Rightarrow> decorator_store" where
  "controllers_only cs = \<lparr>controllerModules = cs, fnModules = []\<rparr>"

text \<open>A root controller, a controller without members and a controller mounted at \<open>/api\<close>.\<close>

definition sample_store :: decorator_store where
  "sample_store =
     controllers_only
       [controller ''Home'' ''/'' [member ''get'' ''/'' ''index''],
        controller ''Idle'' ''/idle'' [],
        controller ''User'' ''/api'' [member ''get'' ''/users'' ''list'',
                                      member ''post'' ''/users'' ''add'']]"

text \<open>A root controller, then one whose own prefix is the one character \<open>a\<close>.\<close>

definition short_prefix_store :: decorator_store where
  "short_prefix_store =
     controllers_only
       [controller ''Home'' ''/'' [member ''get'' ''/'' ''index''],
        controller ''A'' ''a'' [member ''get'' ''/x'' ''x'']]"

text \<open>A sound controller, then one with a star in its prefix.\<close>

definition star_prefix_store :: decorator_store where
  "star_prefix_store =
     controllers_only
       [controller ''User'' ''/api'' [member ''get'' ''/users'' ''list''],
        controller ''Bad'' ''/b*'' [member ''get'' ''/'' ''index'']]"

text \<open>The same three controllers, the one without members first.\<close>

definition idle_first_store :: decorator_store where
  "idle_first_store =
     controllers_only
       [controller ''Idle'' ''/idle'' [],
        controller ''Home'' ''/'' [member ''get'' ''/'' ''index''],
        controller ''User'' ''/api'' [member ''get'' ''/users'' ''list'',
                                      member ''post'' ''/users'' ''add'']]"


section \<open>Properties\<close>

subsection \<open>Consistent comparators\<close>

lemma consistent_refl: "consistent_on c S \<Longrightarrow> a \<in> S \<Longrightarrow> c a a = 0"
  unfolding consistent_on_def by blast

lemma consistent_sym: "consistent_on c S \<Longrightarrow> a \<in> S \<Longrightarrow> b \<in> S \<Longrightarrow> c a b = 0 \<Longrightarrow> c b a = 0"
  unfolding consistent_on_def by blast

lemma consistent_eq_trans:
  "consistent_on c S \<Longrightarrow> a \<in> S \<Longrightarrow> b \<in> S \<Longrightarrow> d \<in> S \<Longrightarrow> c a b = 0 \<Longrightarrow> c b d = 0 \<Longrightarrow> c a d = 0"
  unfolding consistent_on_def by blast

lemma consistent_less_trans:
  "consistent_on c S \<Longrightarrow> a \<in> S \<Longrightarrow> b \<in> S \<Longrightarrow> d \<in> S \<Longrightarrow> c a b < 0 \<Longrightarrow> c b d < 0 \<Longrightarrow> c a d < 0"
  unfolding consistent_on_def by blast

lemma consistent_greater_trans:
  "consistent_on c S \<Longrightarrow> a \<in> S \<Longrightarrow> b \<in> S \<Longrightarrow> d \<in> S \<Longrightarrow> c a b > 0 \<Longrightarrow> c b d > 0 \<Longrightarrow> c a d > 0"
  unfolding consistent_on_def by blast

lemma consistent_greater_less:
  assumes "consistent_on c S" "a \<in> S" "b \<in> S" "c a b > 0"
  shows "c b a < 0"
proof (rule ccontr)
  assume "\<not> c b a < 0"
  then consider "c b a = 0" | "c b a > 0" by linarith
  then show False
  proof cases
    case 1
    with assms consistent_sym[of c S b a] show False by simp
  next
    case 2
    with assms consistent_greater_trans[of c S a b a] consistent_refl[of c S a] show False by simp
  qed
qed

lemma consistent_less_greater:
  assumes "consistent_on c S" "a \<in> S" "b \<in> S" "c a b < 0"
  shows "c b a > 0"
proof (rule ccontr)
  assume "\<not> c b a > 0"
  then consider "c b a = 0" | "c b a < 0" by linarith
  then show False
  proof cases
    case 1
    with assms consistent_sym[of c S b a] show False by simp
  next
    case 2
    with assms consistent_less_trans[of c S a b a] consistent_refl[of c S a] show False by simp
  qed
qed

lemma consistent_le_trans:
  assumes cons: "consistent_on c S" and S: "a \<in> S" "b \<in> S" "d \<in> S"
    and ab: "c a b \<le> 0" and bd: "c b d \<le> 0"
  shows "c a d \<le> 0"
proof (rule ccontr)
  assume "\<not> c a d \<le> 0"
  then have ad: "c a d > 0" by simp
  then have da: "c d a < 0" using consistent_greater_less[OF cons S(1) S(3)] by simp
  consider "c a b < 0" "c b d < 0" | "c a b = 0" "c b d = 0" | "c a b < 0" "c b d = 0" | "c a b = 0" "c b d < 0"
    using ab bd by linarith
  then show False
  proof cases
    case 1
    with consistent_less_trans[OF cons S] ad show False by simp
  next
    case 2
    with consistent_eq_trans[OF cons S] ad show False by simp
  next
    case 3
    from 3(2) have "c d b = 0" using consistent_sym[OF cons S(2) S(3)] by simp
    moreover from da 3(1) have "c d b < 0" using consistent_less_trans[OF cons S(3) S(1) S(2)] by simp
    ultimately show False by simp
  next
    case 4
    from 4(1) have "c b a = 0" using consistent_sym[OF cons S(1) S(2)] by simp
    moreover from 4(2) da have "c b a < 0" using consistent_less_trans[OF cons S(2) S(3) S(1)] by simp
    ultimately show False by simp
  qed
qed

subsection \<open>Insertion sort\<close>

lemma mset_insert_back: "mset (insert_back c x xs) = add_mset x (mset xs)"
  by (induction xs) auto

lemma mset_foldl_insert_back:
  "mset (foldl (\<lambda>front element. insert_back c element front) acc xs) = mset acc + mset xs"
  by (induction xs arbitrary: acc) (auto simp: mset_insert_back)

lemma mset_array_sort: "mset (array_sort c xs) = mset xs"
  by (simp add: array_sort_def mset_foldl_insert_back)

lemma set_array_sort: "set (array_sort c xs) = set xs"
  by (metis mset_array_sort set_mset_mset)

lemma length_array_sort: "length (array_sort c xs) = length xs"
  by (metis mset_array_sort size_mset)

lemma set_insert_back: "set (insert_back c x xs) = insert x (set xs)"
  by (induction xs) auto

text \<open>The front part, read from its right end, stays sorted.\<close>

lemma sorted_insert_back:
  assumes cons: "consistent_on c S" and x: "x \<in> S"
  shows "set front \<subseteq> S \<Longrightarrow> sorted_wrt (\<lambda>a b. c b a \<le> 0) front \<Longrightarrow>
         sorted_wrt (\<lambda>a b. c b a \<le> 0) (insert_back c x front)"
proof (induction front)
  case Nil
  then show ?case by simp
next
  case (Cons t front)
  then have t: "t \<in> S" and sub: "set front \<subseteq> S" by auto
  show ?case
  proof (cases "c t x > 0")
    case True
    then have "c x t \<le> 0" using consistent_greater_less[OF cons t x] by simp
    with True Cons sub show ?thesis by (auto simp: set_insert_back)
  next
    case False
    then have tx: "c t x \<le> 0" by simp
    have "\<forall>z\<in>set (t # front). c z x \<le> 0"
    proof
      fix z assume z: "z \<in> set (t # front)"
      show "c z x \<le> 0"
      proof (cases "z = t")
        case True
        with tx show ?thesis by simp
      next
        case False
        with z have zf: "z \<in> set front" by simp
        with Cons.prems(2) have "c z t \<le> 0" by simp
        moreover from zf sub have "z \<in> S" by blast
        ultimately show ?thesis using consistent_le_trans[OF cons _ t x _ tx] by blast
      qed
    qed
    with False Cons.prems(2) show ?thesis by simp
  qed
qed

lemma sorted_foldl_insert_back:
  assumes cons: "consistent_on c S"
  shows "set acc \<subseteq> S \<Longrightarrow> set xs \<subseteq> S \<Longrightarrow> sorted_wrt (\<lambda>a b. c b a \<le> 0) acc \<Longrightarrow>
         sorted_wrt (\<lambda>a b. c b a \<le> 0) (foldl (\<lambda>front element. insert_back c element front) acc xs)"
proof (induction xs arbitrary: acc)
  case Nil
  then show ?case by simp
next
  case (Cons x xs)
  then have x: "x \<in> S" by simp
  from Cons.prems have 1: "sorted_wrt (\<lambda>a b. c b a \<le> 0) (insert_back c x acc)"
    using sorted_insert_back[OF cons x, of acc] by blast
  from Cons.prems x have 2: "set (insert_back c x acc) \<subseteq> S" by (simp add: set_insert_back)
  from Cons.prems have 3: "set xs \<subseteq> S" by simp
  from Cons.IH[OF 2 3 1] show ?case by simp
qed

lemma sorted_array_sort:
  assumes "consistent_on c (set xs)"
  shows "sorted_wrt (\<lambda>a b. c a b \<le> 0) (array_sort c xs)"
proof -
  have "sorted_wrt (\<lambda>a b. c b a \<le> 0) (foldl (\<lambda>front element. insert_back c element front) [] xs)"
    using sorted_foldl_insert_back[OF assms, of "[]" xs] by simp
  then show ?thesis by (simp add: array_sort_def sorted_wrt_rev)
qed

text \<open>Values that compare equal stay in the order in which they came.\<close>

lemma stable_insert_back:
  assumes cons: "consistent_on c S" and a: "a \<in> S" and x: "x \<in> S"
  shows "set front \<subseteq> S \<Longrightarrow>
         filter (\<lambda>b. c a b = 0) (rev (insert_back c x front)) =
         filter (\<lambda>b. c a b = 0) (rev front) @ filter (\<lambda>b. c a b = 0) [x]"
proof (induction front)
  case Nil
  then show ?case by simp
next
  case (Cons t front)
  then have t: "t \<in> S" and sub: "set front \<subseteq> S" by auto
  show ?case
  proof (cases "c t x > 0")
    case False
    then show ?thesis by simp
  next
    case True
    have "\<not> (c a t = 0 \<and> c a x = 0)"
    proof
      assume e: "c a t = 0 \<and> c a x = 0"
      then have "c t a = 0" using consistent_sym[OF cons a t] by simp
      with e have "c t x = 0" using consistent_eq_trans[OF cons t a x] by simp
      with True show False by simp
    qed
    with True Cons.IH[OF sub] show ?thesis by auto
  qed
qed

lemma stable_foldl_insert_back:
  assumes cons: "consistent_on c S" and a: "a \<in> S"
  shows "set acc \<subseteq> S \<Longrightarrow> set xs \<subseteq> S \<Longrightarrow>
         filter (\<lambda>b. c a b = 0) (rev (foldl (\<lambda>front element. insert_back c element front) acc xs)) =
         filter (\<lambda>b. c a b = 0) (rev acc) @ filter (\<lambda>b. c a b = 0) xs"
proof (induction xs arbitrary: acc)
  case Nil
  then show ?case by simp
next
  case (Cons x xs)
  then have x: "x \<in> S" and xs: "set xs \<subseteq> S" by auto
  from Cons.prems x have 2: "set (insert_back c x acc) \<subseteq> S" by (simp add: set_insert_back)
  from Cons.IH[OF 2 xs] stable_insert_back[OF cons a x Cons.prems(1)]
  show ?case by simp
qed

lemma stable_array_sort:
  assumes "consistent_on c (set xs)" and "a \<in> set xs"
  shows "filter (\<lambda>b. c a b = 0) (array_sort c xs) = filter (\<lambda>b. c a b = 0) xs"
  using stable_foldl_insert_back[OF assms, of "[]" xs] by (simp add: array_sort_def)

lemma ecma_sort_array_sort: "ecma_sort array_sort"
  unfolding ecma_sort_def
  by (simp add: mset_array_sort sorted_array_sort stable_array_sort)

text \<open>
  A consistent comparator settles the result: the number of the values that are less
  than a value is a key of it, and a list has one stable sorting by a key.
\<close>

lemma consistent_less_le_trans:
  assumes cons: "consistent_on c S" and S: "x \<in> S" "a \<in> S" "b \<in> S"
    and xa: "c x a < 0" and ab: "c a b \<le> 0"
  shows "c x b < 0"
proof (rule ccontr)
  assume n: "\<not> c x b < 0"
  from xa have "c x a \<le> 0" by simp
  from consistent_le_trans[OF cons S this ab] n have "c x b = 0" by simp
  then have "c b x = 0" by (rule consistent_sym[OF cons S(1) S(3)])
  then have "c b x \<le> 0" by simp
  from consistent_le_trans[OF cons S(2) S(3) S(1) ab this] have "c a x \<le> 0" .
  moreover from consistent_less_greater[OF cons S(1) S(2) xa] have "c a x > 0" .
  ultimately show False by simp
qed

lemma rank_mono:
  assumes cons: "consistent_on c (set xs)" and S: "a \<in> set xs" "b \<in> set xs"
    and ab: "c a b \<le> 0"
  shows "card {x \<in> set xs. c x a < 0} \<le> card {x \<in> set xs. c x b < 0}"
proof (rule card_mono)
  show "finite {x \<in> set xs. c x b < 0}" by simp
  show "{x \<in> set xs. c x a < 0} \<subseteq> {x \<in> set xs. c x b < 0}"
    using consistent_less_le_trans[OF cons _ S _ ab] by blast
qed

lemma rank_strict_mono:
  assumes cons: "consistent_on c (set xs)" and S: "a \<in> set xs" "b \<in> set xs"
    and ab: "c a b < 0"
  shows "card {x \<in> set xs. c x a < 0} < card {x \<in> set xs. c x b < 0}"
proof (rule psubset_card_mono)
  show "finite {x \<in> set xs. c x b < 0}" by simp
  from ab have le: "c a b \<le> 0" by simp
  have "{x \<in> set xs. c x a < 0} \<subseteq> {x \<in> set xs. c x b < 0}"
    using consistent_less_le_trans[OF cons _ S _ le] by blast
  moreover from S(1) ab have "a \<in> {x \<in> set xs. c x b < 0}" by simp
  moreover from consistent_refl[OF cons S(1)] have "a \<notin> {x \<in> set xs. c x a < 0}" by simp
  ultimately show "{x \<in> set xs. c x a < 0} \<subset> {x \<in> set xs. c x b < 0}" by blast
qed

lemma rank_eq_iff:
  assumes cons: "consistent_on c (set xs)" and S: "a \<in> set xs" "b \<in> set xs"
  shows "card {x \<in> set xs. c x a < 0} = card {x \<in> set xs. c x b < 0} \<longleftrightarrow> c a b = 0"
proof
  assume e: "c a b = 0"
  then have "c b a = 0" by (rule consistent_sym[OF cons S])
  with e rank_mono[OF cons S] rank_mono[OF cons S(2) S(1)] show
    "card {x \<in> set xs. c x a < 0} = card {x \<in> set xs. c x b < 0}" by simp
next
  assume e: "card {x \<in> set xs. c x a < 0} = card {x \<in> set xs. c x b < 0}"
  show "c a b = 0"
  proof (rule ccontr)
    assume "c a b \<noteq> 0"
    then consider "c a b < 0" | "c a b > 0" by linarith
    then show False
    proof cases
      case 1
      from rank_strict_mono[OF cons S 1] e show False by simp
    next
      case 2
      from consistent_greater_less[OF cons S 2] have "c b a < 0" .
      from rank_strict_mono[OF cons S(2) S(1) this] e show False by simp
    qed
  qed
qed

lemma stable_sort_unique:
  assumes cons: "consistent_on c (set xs)"
    and m: "mset ys = mset xs"
    and s: "sorted_wrt (\<lambda>a b. c a b \<le> 0) ys"
    and st: "\<forall>a\<in>set xs. filter (\<lambda>b. c a b = 0) ys = filter (\<lambda>b. c a b = 0) xs"
  shows "sort_key (\<lambda>a. card {x \<in> set xs. c x a < 0}) xs = ys"
proof (rule properties_for_sort_key)
  show "mset ys = mset xs" by (rule m)
next
  from m have set: "set ys = set xs" by (metis set_mset_mset)
  fix k
  assume "k \<in> set ys"
  with set have k: "k \<in> set xs" by simp
  have "filter (\<lambda>x. card {y \<in> set xs. c y k < 0} = card {y \<in> set xs. c y x < 0}) ys =
        filter (\<lambda>b. c k b = 0) ys"
    using rank_eq_iff[OF cons k] set by (intro filter_cong) auto
  moreover have "filter (\<lambda>x. card {y \<in> set xs. c y k < 0} = card {y \<in> set xs. c y x < 0}) xs =
        filter (\<lambda>b. c k b = 0) xs"
    using rank_eq_iff[OF cons k] by (intro filter_cong) auto
  ultimately show "filter (\<lambda>x. card {y \<in> set xs. c y k < 0} = card {y \<in> set xs. c y x < 0}) ys =
        filter (\<lambda>x. card {y \<in> set xs. c y k < 0} = card {y \<in> set xs. c y x < 0}) xs"
    using st k by simp
next
  from m have set: "set ys = set xs" by (metis set_mset_mset)
  have "sorted_wrt (\<lambda>a b. card {x \<in> set xs. c x a < 0} \<le> card {x \<in> set xs. c x b < 0}) ys"
  proof (rule sorted_wrt_mono_rel[OF _ s])
    fix a b
    assume "a \<in> set ys" "b \<in> set ys" "c a b \<le> 0"
    with set rank_mono[OF cons] show
      "card {x \<in> set xs. c x a < 0} \<le> card {x \<in> set xs. c x b < 0}" by simp
  qed
  then show "sorted (map (\<lambda>a. card {x \<in> set xs. c x a < 0}) ys)"
    by (simp add: sorted_map)
qed

text \<open>Where the comparator is consistent, every runtime returns what \<open>array_sort\<close> returns.\<close>

lemma ecma_sort_settled:
  assumes "ecma_sort srt" and cons: "consistent_on c (set xs)"
  shows "srt c xs = array_sort c xs"
proof -
  from assms have "mset (srt c xs) = mset xs"
    "sorted_wrt (\<lambda>a b. c a b \<le> 0) (srt c xs)"
    "\<forall>a\<in>set xs. filter (\<lambda>b. c a b = 0) (srt c xs) = filter (\<lambda>b. c a b = 0) xs"
    unfolding ecma_sort_def by blast+
  from stable_sort_unique[OF cons this]
  have 1: "sort_key (\<lambda>a. card {x \<in> set xs. c x a < 0}) xs = srt c xs" .
  from ecma_sort_array_sort cons have "mset (array_sort c xs) = mset xs"
    "sorted_wrt (\<lambda>a b. c a b \<le> 0) (array_sort c xs)"
    "\<forall>a\<in>set xs. filter (\<lambda>b. c a b = 0) (array_sort c xs) = filter (\<lambda>b. c a b = 0) xs"
    unfolding ecma_sort_def by blast+
  from stable_sort_unique[OF cons this]
  have 2: "sort_key (\<lambda>a. card {x \<in> set xs. c x a < 0}) xs = array_sort c xs" .
  from 1 2 show ?thesis by simp
qed

subsection \<open>The keys and the comparator of sortRouter\<close>

lemma js_split_not_Nil: "js_split sep s \<noteq> []"
  by (subst js_split.simps) (auto split: list.splits)

lemma length_js_split_char: "length (js_split [c] s) = Suc (count_list s c)"
proof (induction s)
  case Nil
  show ?case by (subst js_split.simps) simp
next
  case (Cons x xs)
  show ?case
  proof (cases "x = c")
    case True
    with Cons show ?thesis by (subst js_split.simps) simp
  next
    case False
    obtain f fs where "js_split [c] xs = f # fs"
      using js_split_not_Nil[of "[c]" xs] by (cases "js_split [c] xs") auto
    with False Cons show ?thesis by (subst js_split.simps) auto
  qed
qed

lemma strip_param_nonempty:
  "CHR '':'' \<in> set s \<Longrightarrow> \<not> starts_with_sigil s \<Longrightarrow> strip_param s \<noteq> []"
  by (cases s) auto

text \<open>
  The computed keys are the keys as the specification words them, the category for a
  pattern that does not begin with the parameter sigil.
\<close>

lemma sort_map_keys:
  "url (sort_map item) = url item"
  "level (sort_map item) = depth (url item)"
  "pureRouter (sort_map item) = normalizedForm (url item)"
  "weight (sort_map item) = specificityWeight (url item)"
  by (simp_all add: sort_map_def Let_def router_info.defs sort_info.defs length_js_split_char
        depth_def normalizedForm_def specificityWeight_def)

lemma sort_map_category:
  "category (sort_map item) =
     (if str_includes (toString (url item)) CHR ''*'' then 0
      else if str_includes (toString (url item)) CHR '':'' \<and> strip_param (toString (url item)) \<noteq> [] then 1
      else 2)"
  by (simp add: sort_map_def Let_def router_info.defs sort_info.defs)

lemma category_as_worded:
  "\<not> starts_with_sigil (toString (url item)) \<Longrightarrow>
   category (sort_map item) = claimed_category (url item)"
  using strip_param_nonempty[of "toString (url item)"]
  by (auto simp: sort_map_category claimed_category_def str_includes_def)

lemma sort_cmp_amended:
  assumes "\<not> starts_with_sigil (toString (url x))" "\<not> starts_with_sigil (toString (url y))"
  shows "sort_cmp (sort_map x) (sort_map y) < 0 \<longleftrightarrow> amended_before (url x) (url y)"
    and "sort_cmp (sort_map x) (sort_map y) > 0 \<longleftrightarrow> amended_before (url y) (url x)"
    and "sort_cmp (sort_map x) (sort_map y) = 0 \<longleftrightarrow> tie (url x) (url y)"
  using assms
  by (auto simp: sort_cmp_def amended_before_def tie_def sort_map_keys category_as_worded)

lemma amended_before_trans:
  "amended_before a b \<Longrightarrow> amended_before b c \<Longrightarrow> amended_before a c"
  unfolding amended_before_def by auto

lemma tie_refl: "tie a a"
  by (simp add: tie_def amended_before_def)

lemma tie_sym: "tie a b \<Longrightarrow> tie b a"
  by (simp add: tie_def)

lemma consistent_sort_cmp:
  assumes cl: "ties_form_classes l" and ns: "no_leading_sigil l"
  shows "consistent_on sort_cmp (set (map sort_map l))"
  unfolding consistent_on_def
proof (intro ballI)
  fix a b c
  assume "a \<in> set (map sort_map l)" "b \<in> set (map sort_map l)" "c \<in> set (map sort_map l)"
  then obtain x y z where x: "x \<in> set l" "a = sort_map x" and y: "y \<in> set l" "b = sort_map y"
    and z: "z \<in> set l" "c = sort_map z" by auto
  have ns': "\<not> starts_with_sigil (toString (url x))" "\<not> starts_with_sigil (toString (url y))"
    "\<not> starts_with_sigil (toString (url z))"
    using ns x(1) y(1) z(1) by (simp_all add: no_leading_sigil_def list_all_iff)
  have 1: "sort_cmp a a = 0"
    using sort_cmp_amended(3)[OF ns'(1) ns'(1)] tie_refl x(2) by simp
  have 2: "sort_cmp a b = 0 \<longrightarrow> sort_cmp b a = 0"
    using sort_cmp_amended(3)[OF ns'(1) ns'(2)] sort_cmp_amended(3)[OF ns'(2) ns'(1)] tie_sym x(2) y(2)
    by blast
  have t: "tie (url x) (url y) \<and> tie (url y) (url z) \<longrightarrow> tie (url x) (url z)"
    using cl x(1) y(1) z(1) unfolding ties_form_classes_def by blast
  have 3: "sort_cmp a b = 0 \<and> sort_cmp b c = 0 \<longrightarrow> sort_cmp a c = 0"
    using sort_cmp_amended(3)[OF ns'(1) ns'(2)] sort_cmp_amended(3)[OF ns'(2) ns'(3)]
      sort_cmp_amended(3)[OF ns'(1) ns'(3)] t x(2) y(2) z(2)
    by blast
  have 4: "sort_cmp a b < 0 \<and> sort_cmp b c < 0 \<longrightarrow> sort_cmp a c < 0"
    using sort_cmp_amended(1)[OF ns'(1) ns'(2)] sort_cmp_amended(1)[OF ns'(2) ns'(3)]
      sort_cmp_amended(1)[OF ns'(1) ns'(3)] amended_before_trans x(2) y(2) z(2)
    by blast
  have 5: "sort_cmp a b > 0 \<and> sort_cmp b c > 0 \<longrightarrow> sort_cmp a c > 0"
    using sort_cmp_amended(2)[OF ns'(1) ns'(2)] sort_cmp_amended(2)[OF ns'(2) ns'(3)]
      sort_cmp_amended(2)[OF ns'(1) ns'(3)] amended_before_trans x(2) y(2) z(2)
    by blast
  from 1 2 3 4 5 show "sort_cmp a a = 0 \<and>
        (sort_cmp a b = 0 \<longrightarrow> sort_cmp b a = 0) \<and>
        (sort_cmp a b = 0 \<and> sort_cmp b c = 0 \<longrightarrow> sort_cmp a c = 0) \<and>
        (sort_cmp a b < 0 \<and> sort_cmp b c < 0 \<longrightarrow> sort_cmp a c < 0) \<and>
        (0 < sort_cmp a b \<and> 0 < sort_cmp b c \<longrightarrow> 0 < sort_cmp a c)"
    by blast
qed

text \<open>What every \<open>ecma_sort\<close> returns for two values, and for values that all compare equal.\<close>

lemma mset_pair_cases:
  assumes "mset l = {#a, b#}"
  shows "l = [a, b] \<or> l = [b, a]"
proof -
  from assms have "length l = 2" by (metis size_mset size_add_mset size_empty numeral_2_eq_2)
  then obtain x y where l: "l = [x, y]"
    by (metis length_0_conv length_Suc_conv numeral_2_eq_2)
  with assms have "{#x, y#} = {#a, b#}" by simp
  then show ?thesis unfolding l by (auto simp: add_eq_conv_ex)
qed

lemma ecma_sort_pair:
  assumes e: "ecma_sort srt" and cons: "consistent_on c {a, b}" and gt: "c a b > 0"
  shows "srt c [a, b] = [b, a]"
proof -
  from e have m: "mset (srt c [a, b]) = {#a, b#}" unfolding ecma_sort_def by simp
  from e cons have s: "sorted_wrt (\<lambda>x y. c x y \<le> 0) (srt c [a, b])"
    unfolding ecma_sort_def by (metis list.simps(15) empty_set)
  from mset_pair_cases[OF m] s gt show ?thesis by auto
qed

lemma ecma_sort_ties:
  assumes e: "ecma_sort srt" and cons: "consistent_on c (set xs)"
    and ties: "\<forall>a\<in>set xs. \<forall>b\<in>set xs. c a b = 0"
  shows "srt c xs = xs"
proof (cases xs)
  case Nil
  from e have "mset (srt c xs) = mset xs" unfolding ecma_sort_def by blast
  with Nil show ?thesis by simp
next
  case (Cons a rest)
  then have a: "a \<in> set xs" by simp
  from e have m: "mset (srt c xs) = mset xs" unfolding ecma_sort_def by blast
  then have set: "set (srt c xs) = set xs" by (metis set_mset_mset)
  from e cons a have f: "filter (\<lambda>b. c a b = 0) (srt c xs) = filter (\<lambda>b. c a b = 0) xs"
    unfolding ecma_sort_def by blast
  from ties a have "filter (\<lambda>b. c a b = 0) xs = xs" by (simp add: filter_id_conv)
  moreover from ties a set have "filter (\<lambda>b. c a b = 0) (srt c xs) = srt c xs"
    by (simp add: filter_id_conv)
  ultimately show ?thesis using f by simp
qed

subsection \<open>The order of sortRouter\<close>

text \<open>
  C1, as the code has it. The runtime's sort does what ECMAScript settles, no pattern of
  the list begins with the parameter sigil, and the ties among the patterns of the list
  form classes. Then \<open>sortRouter\<close> returns the entries of the list, with their computed
  keys, in this order: descending category, then descending weight, then descending depth,
  then the longer normalized form, and, when the normalized forms are the same string, the
  shorter raw pattern. No entry stands after one that it is before in this order, and the
  entries that tie, those with different normalized forms of one length among them, stay
  in the order in which they came.
\<close>

theorem sortRouter_order:
  assumes "ecma_sort runtime_sort" and "ties_form_classes urlMatchList"
    and "no_leading_sigil urlMatchList"
  shows "mset (sortRouter runtime_sort urlMatchList) = mset (map sort_map urlMatchList) \<and>
         sorted_wrt (\<lambda>a b. \<not> amended_before (url b) (url a)) (sortRouter runtime_sort urlMatchList) \<and>
         (\<forall>x\<in>set urlMatchList.
            filter (\<lambda>e. tie (url x) (url e)) (sortRouter runtime_sort urlMatchList) =
            filter (\<lambda>e. tie (url x) (url e)) (map sort_map urlMatchList))"
proof -
  let ?in = "map sort_map urlMatchList" and ?out = "sortRouter runtime_sort urlMatchList"
  have ns: "\<And>x. x \<in> set urlMatchList \<Longrightarrow> \<not> starts_with_sigil (toString (url x))"
    using assms(3) by (simp add: no_leading_sigil_def list_all_iff)
  have cons: "consistent_on sort_cmp (set ?in)"
    using assms(2,3) by (rule consistent_sort_cmp)
  from assms(1) have m: "mset ?out = mset ?in"
    unfolding ecma_sort_def sortRouter_def by blast
  then have set: "set ?out = sort_map ` set urlMatchList"
    by (metis set_mset_mset set_map)
  from assms(1) cons have s: "sorted_wrt (\<lambda>a b. sort_cmp a b \<le> 0) ?out"
    unfolding ecma_sort_def sortRouter_def by blast
  have "sorted_wrt (\<lambda>a b. \<not> amended_before (url b) (url a)) ?out"
  proof (rule sorted_wrt_mono_rel[OF _ s])
    fix a b
    assume "a \<in> set ?out" "b \<in> set ?out" and le: "sort_cmp a b \<le> 0"
    with set obtain x y where x: "x \<in> set urlMatchList" "a = sort_map x"
      and y: "y \<in> set urlMatchList" "b = sort_map y" by auto
    from sort_cmp_amended(2)[OF ns[OF x(1)] ns[OF y(1)]] le x(2) y(2)
    show "\<not> amended_before (url b) (url a)" by (simp add: sort_map_keys)
  qed
  moreover have "filter (\<lambda>e. tie (url x) (url e)) ?out = filter (\<lambda>e. tie (url x) (url e)) ?in"
    if x: "x \<in> set urlMatchList" for x
  proof -
    from x have "sort_map x \<in> set ?in" by simp
    with assms(1) cons
    have f: "filter (\<lambda>b. sort_cmp (sort_map x) b = 0) ?out = filter (\<lambda>b. sort_cmp (sort_map x) b = 0) ?in"
      unfolding ecma_sort_def sortRouter_def by blast
    have eq: "sort_cmp (sort_map x) e = 0 \<longleftrightarrow> tie (url x) (url e)"
      if "e \<in> sort_map ` set urlMatchList" for e
    proof -
      from that obtain y where y: "y \<in> set urlMatchList" "e = sort_map y" by auto
      from sort_cmp_amended(3)[OF ns[OF x] ns[OF y(1)]] y(2) show ?thesis
        by (simp add: sort_map_keys)
    qed
    have "filter (\<lambda>e. tie (url x) (url e)) ?out = filter (\<lambda>b. sort_cmp (sort_map x) b = 0) ?out"
      using eq set by (intro filter_cong) auto
    moreover have "filter (\<lambda>e. tie (url x) (url e)) ?in = filter (\<lambda>b. sort_cmp (sort_map x) b = 0) ?in"
      using eq by (intro filter_cong) auto
    ultimately show ?thesis using f by simp
  qed
  ultimately show ?thesis using m by blast
qed

theorem sortRouter_order_witness:
  "ecma_sort array_sort \<and>
   ties_form_classes [route ''get'' ''/ab/*'' ''h1'', route ''get'' ''/ab/cd'' ''h2'',
                      route ''get'' ''/b/:xyz'' ''h3'', route ''get'' ''/a/**'' ''h4'',
                      route ''get'' ''/a/:id'' ''h5'', route ''get'' ''/a/*'' ''h6''] \<and>
   no_leading_sigil [route ''get'' ''/ab/*'' ''h1'', route ''get'' ''/ab/cd'' ''h2'',
                     route ''get'' ''/b/:xyz'' ''h3'', route ''get'' ''/a/**'' ''h4'',
                     route ''get'' ''/a/:id'' ''h5'', route ''get'' ''/a/*'' ''h6''] \<and>
   map (toString \<circ> url)
     (sortRouter array_sort
        [route ''get'' ''/ab/*'' ''h1'', route ''get'' ''/ab/cd'' ''h2'',
         route ''get'' ''/b/:xyz'' ''h3'', route ''get'' ''/a/**'' ''h4'',
         route ''get'' ''/a/:id'' ''h5'', route ''get'' ''/a/*'' ''h6'']) =
     [''/ab/cd'', ''/b/:xyz'', ''/a/:id'', ''/ab/*'', ''/a/*'', ''/a/**''] \<and>
   sorted_wrt (\<lambda>a b. \<not> amended_before (url b) (url a))
     (sortRouter array_sort
        [route ''get'' ''/ab/*'' ''h1'', route ''get'' ''/ab/cd'' ''h2'',
         route ''get'' ''/b/:xyz'' ''h3'', route ''get'' ''/a/**'' ''h4'',
         route ''get'' ''/a/:id'' ''h5'', route ''get'' ''/a/*'' ''h6''])"
proof -
  let ?l = "[route ''get'' ''/ab/*'' ''h1'', route ''get'' ''/ab/cd'' ''h2'',
             route ''get'' ''/b/:xyz'' ''h3'', route ''get'' ''/a/**'' ''h4'',
             route ''get'' ''/a/:id'' ''h5'', route ''get'' ''/a/*'' ''h6'']"
  have t: "ties_form_classes ?l" by code_simp
  have n: "no_leading_sigil ?l" by code_simp
  have v: "map (toString \<circ> url) (sortRouter array_sort ?l) =
     [''/ab/cd'', ''/b/:xyz'', ''/a/:id'', ''/ab/*'', ''/a/*'', ''/a/**'']" by code_simp
  from sortRouter_order[OF ecma_sort_array_sort t n] ecma_sort_array_sort t n v
  show ?thesis by blast
qed

text \<open>
  C1 as it is worded fails: \<open>/b/:xyz\<close> and \<open>/a/:id\<close> agree on category, weight and
  depth, their normalized forms \<open>/b/123\<close> and \<open>/a/123\<close> have one length, so the worded
  order puts \<open>/a/:id\<close>, whose raw pattern is shorter, strictly first; the code leaves
  \<open>/b/:xyz\<close> before it. The comparator is consistent for the two entries, so this is
  the result of every runtime.
\<close>

theorem sortRouter_order_counterexample:
  "sortRouter array_sort [route ''get'' ''/b/:xyz'' ''h1'', route ''get'' ''/a/:id'' ''h2''] =
     [sort_map (route ''get'' ''/b/:xyz'' ''h1''), sort_map (route ''get'' ''/a/:id'' ''h2'')] \<and>
   worded_before (url (route ''get'' ''/a/:id'' ''h2'')) (url (route ''get'' ''/b/:xyz'' ''h1'')) \<and>
   normalizedForm (url (route ''get'' ''/b/:xyz'' ''h1'')) = ''/b/123'' \<and>
   normalizedForm (url (route ''get'' ''/a/:id'' ''h2'')) = ''/a/123''"
  by code_simp

lemma sortRouter_tie_any_runtime:
  assumes "ecma_sort srt"
  shows "sortRouter srt [route ''get'' ''/b/:xyz'' ''h1'', route ''get'' ''/a/:id'' ''h2''] =
     [sort_map (route ''get'' ''/b/:xyz'' ''h1''), sort_map (route ''get'' ''/a/:id'' ''h2'')]"
proof -
  let ?xs = "[sort_map (route ''get'' ''/b/:xyz'' ''h1''), sort_map (route ''get'' ''/a/:id'' ''h2'')]"
  have c: "consistent_on sort_cmp (set ?xs)" by code_simp
  have t: "\<forall>a\<in>set ?xs. \<forall>b\<in>set ?xs. sort_cmp a b = 0" by code_simp
  from ecma_sort_ties[OF assms c t] show ?thesis by (simp add: sortRouter_def)
qed

text \<open>
  The condition on the ties is not idle. Of \<open>/x:abc\<close>, \<open>/:ab-\<close> and \<open>/x:a\<close> the
  first and the third have one normalized form, and the second ties with both: the
  comparator is not consistent there, and ECMAScript leaves the order to the runtime.
  One sort that does what ECMAScript settles leaves the list as it is, \<open>/x:abc\<close>
  before \<open>/x:a\<close>, which has the same normalized form and the shorter raw pattern.
\<close>

lemma sort_cmp_inconsistent:
  "\<not> ties_form_classes [route ''get'' ''/x:abc'' ''h1'', route ''get'' ''/:ab-'' ''h2'',
                         route ''get'' ''/x:a'' ''h3''] \<and>
   no_leading_sigil [route ''get'' ''/x:abc'' ''h1'', route ''get'' ''/:ab-'' ''h2'',
                     route ''get'' ''/x:a'' ''h3''] \<and>
   \<not> consistent_on sort_cmp (set (map sort_map
        [route ''get'' ''/x:abc'' ''h1'', route ''get'' ''/:ab-'' ''h2'',
         route ''get'' ''/x:a'' ''h3''])) \<and>
   map (toString \<circ> url)
     (sortRouter array_sort [route ''get'' ''/x:abc'' ''h1'', route ''get'' ''/:ab-'' ''h2'',
                             route ''get'' ''/x:a'' ''h3'']) = [''/x:abc'', ''/:ab-'', ''/x:a''] \<and>
   amended_before (url (route ''get'' ''/x:a'' ''h3'')) (url (route ''get'' ''/x:abc'' ''h1''))"
  by code_simp

subsection \<open>Categories\<close>

text \<open>
  C5: every fully literal entry is to precede every parameterized entry. For the
  patterns \<open>/\<close> and \<open>:id/\<close> the code puts the parameterized one first: cutting
  \<open>:id/\<close> at its colon leaves the empty string, which is falsy, so the entry keeps
  category 2.
\<close>

theorem sortRouter_leading_colon:
  "map (toString \<circ> url)
     (sortRouter array_sort [route ''get'' ''/'' ''h1'', route ''get'' '':id/'' ''h2''])
     = ['':id/'', ''/''] \<and>
   literal_pattern ''/'' \<and> param_pattern '':id/'' \<and>
   category (sort_map (route ''get'' '':id/'' ''h2'')) = 2"
  by code_simp

text \<open>The comparator is consistent for the two entries: every runtime returns this.\<close>

lemma sortRouter_pair:
  assumes "ecma_sort srt" and "consistent_on sort_cmp {sort_map a, sort_map b}"
    and "sort_cmp (sort_map a) (sort_map b) > 0"
  shows "sortRouter srt [a, b] = [sort_map b, sort_map a]"
  unfolding sortRouter_def list.map
  by (rule ecma_sort_pair[where c = sort_cmp and a = "sort_map a" and b = "sort_map b", OF assms])

lemma sortRouter_leading_colon_any_runtime:
  assumes "ecma_sort srt"
  shows "sortRouter srt [route ''get'' ''/'' ''h1'', route ''get'' '':id/'' ''h2''] =
           [sort_map (route ''get'' '':id/'' ''h2''), sort_map (route ''get'' ''/'' ''h1'')]"
proof -
  have "consistent_on sort_cmp
          (set [sort_map (route ''get'' ''/'' ''h1''), sort_map (route ''get'' '':id/'' ''h2'')])"
    by code_simp
  then have c: "consistent_on sort_cmp
             {sort_map (route ''get'' ''/'' ''h1''), sort_map (route ''get'' '':id/'' ''h2'')}"
    unfolding list.set .
  have g: "sort_cmp (sort_map (route ''get'' ''/'' ''h1'')) (sort_map (route ''get'' '':id/'' ''h2'')) > 0"
    by code_simp
  show ?thesis
    by (rule sortRouter_pair[where a = "route ''get'' ''/'' ''h1''" and b = "route ''get'' '':id/'' ''h2''",
          OF assms c g])
qed

text \<open>The patterns that the specification lists sort as it says.\<close>

lemma sortRouter_examples:
  "map (toString \<circ> url)
     (sortRouter array_sort [route ''get'' ''/ab/*'' ''h1'', route ''get'' ''/ab/cd'' ''h2'',
                             route ''get'' ''/ab/:id'' ''h3''])
     = [''/ab/cd'', ''/ab/:id'', ''/ab/*'']"
  "map (toString \<circ> url) (sortRouter array_sort [route ''get'' ''/*'' ''h1'', route ''get'' ''/'' ''h2''])
     = [''/'', ''/*'']"
  by code_simp+

text \<open>The three kinds of pattern are the three values of the category as it is worded.\<close>

lemma claimed_category_kinds:
  "literal_pattern s \<Longrightarrow> claimed_category (Str s) = 2"
  "param_pattern s \<Longrightarrow> claimed_category (Str s) = 1"
  "wildcard_pattern s \<Longrightarrow> claimed_category (Str s) = 0"
  by (simp_all add: literal_pattern_def param_pattern_def wildcard_pattern_def claimed_category_def)

subsection \<open>checkDuplicateAndPush\<close>

text \<open>
  C2, as the code has it. In a group that the table holds, \<open>checkDuplicateAndPush\<close>
  throws exactly when the incoming entry has a truthy pattern (a non-empty string or a
  pattern object) and a non-empty method and an entry of the group has that pattern
  (\<open>===\<close>) and that method; entries with an empty pattern or an empty method conflict
  with nothing. The error then carries the method and the pattern of the incoming entry,
  the handler of the first entry of the group that has them and the handler of the
  incoming entry, and the instance is as before. Otherwise the entry is appended to the
  group.
\<close>

theorem checkDuplicateAndPush_conflict:
  assumes "routes this p = Some prefixList"
  shows "case checkDuplicateAndPush p r this of
           Inl (e, this') \<Rightarrow>
             this' = this \<and> truthy_url (url r) \<and> requestMethod r \<noteq> [] \<and>
             (\<exists>before item after.
                prefixList = before @ item # after \<and>
                \<not> (\<exists>earlier\<in>set before.
                      strict_eq (url earlier) (url r) \<and> requestMethod earlier = requestMethod r) \<and>
                strict_eq (url item) (url r) \<and> requestMethod item = requestMethod r \<and>
                e = MidwayDuplicateRouteError (requestMethod r @ '' '' @ toString (url r))
                      (handlerName item) (handlerName r))
         | Inr this' \<Rightarrow>
             \<not> (truthy_url (url r) \<and> requestMethod r \<noteq> [] \<and>
                (\<exists>item\<in>set prefixList.
                   strict_eq (url item) (url r) \<and> requestMethod item = requestMethod r)) \<and>
             this' = this\<lparr>routes := (routes this)(p \<mapsto> prefixList @ [r])\<rparr>"
proof -
  let ?dup = "\<lambda>item. truthy_url (url r) \<and> requestMethod r \<noteq> [] \<and>
                     strict_eq (url item) (url r) \<and> requestMethod item = requestMethod r"
  show ?thesis
  proof (cases "filter ?dup prefixList")
    case Nil
    then have "\<forall>item\<in>set prefixList. \<not> ?dup item" by (simp add: filter_empty_conv)
    with Nil assms show ?thesis by (auto simp: checkDuplicateAndPush_def)
  next
    case (Cons m ms)
    from Cons obtain before after where
      split: "prefixList = before @ m # after" "\<forall>u\<in>set before. \<not> ?dup u" "?dup m"
      by (auto simp: filter_eq_Cons_iff)
    then have d: "truthy_url (url r)" "requestMethod r \<noteq> []" by simp_all
    from split(2) d
    have nb: "\<not> (\<exists>earlier\<in>set before.
                 strict_eq (url earlier) (url r) \<and> requestMethod earlier = requestMethod r)"
      by blast
    have "\<exists>before item after.
                prefixList = before @ item # after \<and>
                \<not> (\<exists>earlier\<in>set before.
                      strict_eq (url earlier) (url r) \<and> requestMethod earlier = requestMethod r) \<and>
                strict_eq (url item) (url r) \<and> requestMethod item = requestMethod r \<and>
                MidwayDuplicateRouteError (requestMethod r @ '' '' @ toString (url r))
                      (handlerName m) (handlerName r) =
                MidwayDuplicateRouteError (requestMethod r @ '' '' @ toString (url r))
                      (handlerName item) (handlerName r)"
      using split(1) split(3) nb by blast
    with Cons assms d show ?thesis by (simp add: checkDuplicateAndPush_def)
  qed
qed

theorem checkDuplicateAndPush_conflict_witness:
  "routes (one_group ''/'' [route ''post'' ''/users'' ''a.add'', route ''get'' ''/users'' ''a.one'',
                            route ''get'' ''/users'' ''a.two'']) ''/'' =
     Some [route ''post'' ''/users'' ''a.add'', route ''get'' ''/users'' ''a.one'',
           route ''get'' ''/users'' ''a.two''] \<and>
   checkDuplicateAndPush ''/'' (route ''get'' ''/users'' ''b.list'')
     (one_group ''/'' [route ''post'' ''/users'' ''a.add'', route ''get'' ''/users'' ''a.one'',
                       route ''get'' ''/users'' ''a.two''])
     = Inl (MidwayDuplicateRouteError ''get /users'' ''a.one'' ''b.list'',
            one_group ''/'' [route ''post'' ''/users'' ''a.add'', route ''get'' ''/users'' ''a.one'',
                             route ''get'' ''/users'' ''a.two'']) \<and>
   truthy_url (url (route ''get'' ''/users'' ''b.list'')) \<and>
   requestMethod (route ''get'' ''/users'' ''b.list'') \<noteq> []"
proof -
  let ?g = "[route ''post'' ''/users'' ''a.add'', route ''get'' ''/users'' ''a.one'',
             route ''get'' ''/users'' ''a.two'']"
  have h: "routes (one_group ''/'' ?g) ''/'' = Some ?g"
    by (simp add: one_group_def)
  have 1: "checkDuplicateAndPush ''/'' (route ''get'' ''/users'' ''b.list'') (one_group ''/'' ?g)
     = Inl (MidwayDuplicateRouteError ''get /users'' ''a.one'' ''b.list'', one_group ''/'' ?g)"
    by (simp add: checkDuplicateAndPush_def one_group_def route_def)
  have "truthy_url (url (route ''get'' ''/users'' ''b.list'')) \<and>
        requestMethod (route ''get'' ''/users'' ''b.list'') \<noteq> []"
    using checkDuplicateAndPush_conflict[OF h, of "route ''get'' ''/users'' ''b.list''"]
    unfolding 1 by simp
  with h 1 show ?thesis by simp
qed

text \<open>
  C2 as it is worded fails for the empty pattern: the group holds an entry with the
  pattern and the non-empty method of the incoming one, and no error is raised.
\<close>

theorem checkDuplicateAndPush_empty_pattern:
  "claimed_conflict [route ''get'' [] ''a.f''] (route ''get'' [] ''b.g'') \<and>
   checkDuplicateAndPush ''/'' (route ''get'' [] ''b.g'') (one_group ''/'' [route ''get'' [] ''a.f''])
     = Inr (one_group ''/'' [route ''get'' [] ''a.f'', route ''get'' [] ''b.g''])"
  by (simp add: claimed_conflict_def checkDuplicateAndPush_def one_group_def route_def)

text \<open>
  C3, as the code has it. Methods are compared as they are written: an incoming entry
  whose method differs from the method of every entry of the group, be it in the case of
  a letter only, raises no error and is appended.
\<close>

theorem checkDuplicateAndPush_exact_method:
  assumes "routes this p = Some prefixList"
    and "\<forall>item\<in>set prefixList. requestMethod item \<noteq> requestMethod r"
  shows "checkDuplicateAndPush p r this = Inr (this\<lparr>routes := (routes this)(p \<mapsto> prefixList @ [r])\<rparr>)"
proof -
  from assms(2) have "filter (\<lambda>item. truthy_url (url r) \<and> requestMethod r \<noteq> [] \<and>
                     strict_eq (url item) (url r) \<and> requestMethod item = requestMethod r) prefixList = []"
    by (simp add: filter_empty_conv)
  with assms(1) show ?thesis by (simp add: checkDuplicateAndPush_def)
qed

theorem checkDuplicateAndPush_exact_method_witness:
  "routes (one_group ''/'' [route ''GET'' ''/users'' ''a.list'']) ''/'' = Some [route ''GET'' ''/users'' ''a.list''] \<and>
   requestMethod (route ''GET'' ''/users'' ''a.list'') \<noteq> requestMethod (route ''get'' ''/users'' ''b.list'') \<and>
   checkDuplicateAndPush ''/'' (route ''get'' ''/users'' ''b.list'') (one_group ''/'' [route ''GET'' ''/users'' ''a.list''])
     = Inr ((one_group ''/'' [route ''GET'' ''/users'' ''a.list''])
         \<lparr>routes := (routes (one_group ''/'' [route ''GET'' ''/users'' ''a.list'']))
             (''/'' \<mapsto> [route ''GET'' ''/users'' ''a.list''] @ [route ''get'' ''/users'' ''b.list''])\<rparr>)"
proof -
  have h: "routes (one_group ''/'' [route ''GET'' ''/users'' ''a.list'']) ''/'' = Some [route ''GET'' ''/users'' ''a.list'']"
    by (simp add: one_group_def)
  have d: "\<forall>item\<in>set [route ''GET'' ''/users'' ''a.list'']. requestMethod item \<noteq> requestMethod (route ''get'' ''/users'' ''b.list'')"
    by (simp add: route_def)
  show ?thesis
    using h d checkDuplicateAndPush_exact_method[OF h d] by simp
qed

text \<open>
  C3 as it is worded fails: \<open>GET /users\<close> is in the group, \<open>get /users\<close> comes in,
  the methods are the same but for the case of their letters, and no error is raised.
\<close>

theorem checkDuplicateAndPush_case_counterexample:
  "strict_eq (url (route ''GET'' ''/users'' ''a.list'')) (url (route ''get'' ''/users'' ''b.list'')) \<and>
   requestMethod (route ''get'' ''/users'' ''b.list'') \<noteq> [] \<and>
   same_ignoring_case (requestMethod (route ''GET'' ''/users'' ''a.list'')) (requestMethod (route ''get'' ''/users'' ''b.list'')) \<and>
   checkDuplicateAndPush ''/'' (route ''get'' ''/users'' ''b.list'') (one_group ''/'' [route ''GET'' ''/users'' ''a.list''])
     = Inr (one_group ''/'' [route ''GET'' ''/users'' ''a.list'', route ''get'' ''/users'' ''b.list''])"
proof -
  have "same_ignoring_case ''GET'' ''get''" by code_simp
  then show ?thesis
    by (simp add: checkDuplicateAndPush_def one_group_def route_def)
qed

subsection \<open>The prefix of a controller\<close>

text \<open>
  C9. When the resolved prefix (the own prefix of the declaration if it ignores the
  global prefix, the global prefix joined with the own prefix otherwise) holds a star,
  \<open>collectRoute\<close> throws the error that names this prefix, and the instance is as
  before: no group is created and no entry is registered.
\<close>

theorem collectRoute_invalid_prefix:
  assumes "p = (if cm_ignoreGlobalPrefix module
                then (if cm_prefix module \<noteq> [] then cm_prefix module else ''/'')
                else J (globalPrefix (options this))
                       (if cm_prefix module \<noteq> [] then cm_prefix module else ''/''))"
    and "CHR ''*'' \<in> set p"
  shows "collectRoute J module this =
           Inl (MidwayCommonError (''Router prefix '' @ p @ '' can'' @ [CHR 0x27] @ ''t set string with *''),
                this)"
  using assms by (simp add: collectRoute_def Let_def str_includes_def)

theorem collectRoute_invalid_prefix_witness:
  "CHR ''*'' \<in> set ''/api/*'' \<and>
   collectRoute joinURLPath (controller ''A'' ''/api/*'' [member ''get'' ''/'' ''index''])
      (new_collector no_options)
   = Inl (MidwayCommonError (''Router prefix '' @ ''/api/*'' @ '' can'' @ [CHR 0x27] @ ''t set string with *''),
          new_collector no_options)"
proof -
  have p: "''/api/*'' =
      (if cm_ignoreGlobalPrefix (controller ''A'' ''/api/*'' [member ''get'' ''/'' ''index''])
       then (if cm_prefix (controller ''A'' ''/api/*'' [member ''get'' ''/'' ''index'']) \<noteq> []
             then cm_prefix (controller ''A'' ''/api/*'' [member ''get'' ''/'' ''index'']) else ''/'')
       else joinURLPath (globalPrefix (options (new_collector no_options)))
              (if cm_prefix (controller ''A'' ''/api/*'' [member ''get'' ''/'' ''index'']) \<noteq> []
               then cm_prefix (controller ''A'' ''/api/*'' [member ''get'' ''/'' ''index'']) else ''/''))"
    by (simp add: controller_def)
  have star: "CHR ''*'' \<in> set ''/api/*''" by simp
  show ?thesis
    using star
      collectRoute_invalid_prefix[where p = "''/api/*''" and J = joinURLPath
        and module = "controller ''A'' ''/api/*'' [member ''get'' ''/'' ''index'']"
        and this = "new_collector no_options", OF p star]
    by simp
qed

subsection \<open>What a pass does to the instance\<close>

lemma checkDuplicateAndPush_Inl:
  "checkDuplicateAndPush p r this = Inl (e, this') \<Longrightarrow> this' = this"
  by (auto simp: checkDuplicateAndPush_def Let_def split: option.splits if_splits)

lemma checkDuplicateAndPush_Inr:
  "checkDuplicateAndPush p r this = Inr this' \<Longrightarrow>
   \<exists>l. routes this p = Some l \<and> this' = this\<lparr>routes := (routes this)(p \<mapsto> l @ [r])\<rparr>"
  by (auto simp: checkDuplicateAndPush_def Let_def split: option.splits if_splits)

lemma kept_checkDuplicateAndPush:
  assumes push: "\<forall>this p l r. P this \<longrightarrow> routes this p = Some l \<longrightarrow>
                   P (this\<lparr>routes := (routes this)(p \<mapsto> l @ [r])\<rparr>)"
    and "P this"
  shows "P (instance_after (checkDuplicateAndPush p r this))"
proof (cases "checkDuplicateAndPush p r this")
  case (Inl t)
  then obtain e this' where "checkDuplicateAndPush p r this = Inl (e, this')" by (cases t) auto
  with checkDuplicateAndPush_Inl[OF this] assms(2) show ?thesis by simp
next
  case (Inr this')
  from checkDuplicateAndPush_Inr[OF this] obtain l where
    "routes this p = Some l" "this' = this\<lparr>routes := (routes this)(p \<mapsto> l @ [r])\<rparr>" by blast
  with push assms(2) Inr show ?thesis by simp
qed

lemma kept_collect_webRouters:
  assumes push: "\<forall>this p l r. P this \<longrightarrow> routes this p = Some l \<longrightarrow>
                   P (this\<lparr>routes := (routes this)(p \<mapsto> l @ [r])\<rparr>)"
  shows "P this \<Longrightarrow> P (instance_after (collect_webRouters uuid cid gp ip ws this))"
proof (induction ws arbitrary: this)
  case Nil
  then show ?case by simp
next
  case (Cons w ws)
  let ?data = "\<lparr>id' = uuid,
                   prefix = (if ro_ignoreGlobalPrefix w then ip else gp),
                   routerName = ro_routerName w,
                   url = ro_path w,
                   requestMethod = ro_requestMethod w,
                   method' = ro_method w,
                   description = ro_description w,
                   summary = ro_summary w,
                   handlerName = cid @ ''.'' @ ro_method w,
                   funcHandlerName = cid @ ''.'' @ ro_method w,
                   controllerId = cid\<rparr>"
  have P1: "P (instance_after (checkDuplicateAndPush (prefix ?data) ?data this))"
    using Cons.prems by (rule kept_checkDuplicateAndPush[OF push])
  show ?case
  proof (cases "checkDuplicateAndPush (prefix ?data) ?data this")
    case (Inl t)
    with P1 show ?thesis by (simp add: Let_def)
  next
    case (Inr this')
    with P1 have "P this'" by simp
    from Cons.IH[OF this] Inr show ?thesis by (simp add: Let_def)
  qed
qed

lemma kept_collect_triggers:
  assumes push: "\<forall>this p l r. P this \<longrightarrow> routes this p = Some l \<longrightarrow>
                   P (this\<lparr>routes := (routes this)(p \<mapsto> l @ [r])\<rparr>)"
  shows "P this \<Longrightarrow> P (instance_after (collect_triggers uuid cid gp ws this))"
proof (induction ws arbitrary: this)
  case Nil
  then show ?case by simp
next
  case (Cons w ws)
  show ?case
  proof (cases "tm_path w")
    case None
    with Cons show ?thesis by simp
  next
    case (Some u)
    show ?thesis
    proof (cases "truthy_url u")
      case False
      with Some Cons show ?thesis by simp
    next
      case True
      let ?data = "\<lparr>id' = uuid,
                             prefix = gp,
                             routerName = [],
                             url = u,
                             requestMethod = (case tm_method w of None \<Rightarrow> ''get'' | Some m \<Rightarrow> m),
                             method' = tm_methodName w,
                             description = [],
                             summary = [],
                             handlerName = cid @ ''.'' @ tm_methodName w,
                             funcHandlerName = cid @ ''.'' @ tm_methodName w,
                             controllerId = cid\<rparr>"
      have P1: "P (instance_after (checkDuplicateAndPush gp ?data this))"
        using Cons.prems by (rule kept_checkDuplicateAndPush[OF push])
      show ?thesis
      proof (cases "checkDuplicateAndPush gp ?data this")
        case (Inl t)
        with P1 Some True show ?thesis by (simp add: Let_def)
      next
        case (Inr this')
        with P1 have "P this'" by simp
        from Cons.IH[OF this] Inr Some True show ?thesis by (simp add: Let_def)
      qed
    qed
  qed
qed

lemma kept_collectRoute:
  assumes sp: "\<forall>this p cid. P this \<longrightarrow> P (set_prefix p (if p = ''/'' then - 999 else 0) cid this)"
    and push: "\<forall>this p l r. P this \<longrightarrow> routes this p = Some l \<longrightarrow>
                   P (this\<lparr>routes := (routes this)(p \<mapsto> l @ [r])\<rparr>)"
    and "P this"
  shows "P (instance_after (collectRoute J module this))"
proof -
  have "P (instance_after (collect_webRouters uuid cid gp ip ws
            (set_prefix ip (if ip = ''/'' then - 999 else 0) cid
               (set_prefix gp (if gp = ''/'' then - 999 else 0) cid this))))" for uuid cid gp ip ws
  proof -
    have "P (set_prefix gp (if gp = ''/'' then - 999 else 0) cid this)"
      using assms(3) sp by blast
    then have "P (set_prefix ip (if ip = ''/'' then - 999 else 0) cid
               (set_prefix gp (if gp = ''/'' then - 999 else 0) cid this))"
      using sp by blast
    then show ?thesis by (rule kept_collect_webRouters[OF push])
  qed
  with assms(3) show ?thesis by (simp add: collectRoute_def Let_def)
qed

lemma kept_collectFunctionRoute:
  assumes sp: "\<forall>this p cid. P this \<longrightarrow> P (set_prefix p (if p = ''/'' then - 999 else 0) cid this)"
    and push: "\<forall>this p l r. P this \<longrightarrow> routes this p = Some l \<longrightarrow>
                   P (this\<lparr>routes := (routes this)(p \<mapsto> l @ [r])\<rparr>)"
    and "P this"
  shows "P (instance_after (collectFunctionRoute module this))"
proof -
  have "P (set_prefix ''/'' (if ''/'' = ''/'' then - 999 else 0) cid this)" for cid
    using sp assms(3) by blast
  then have "P (set_prefix ''/'' (- 999) cid this)" for cid
    by simp
  then have "P (instance_after (collect_triggers uuid cid gp ws (set_prefix ''/'' (- 999) cid this)))"
    for uuid cid gp ws
    by (rule kept_collect_triggers[OF push])
  then show ?thesis by (simp add: collectFunctionRoute_def Let_def)
qed

lemma kept_collect_controllers:
  assumes sp: "\<forall>this p cid. P this \<longrightarrow> P (set_prefix p (if p = ''/'' then - 999 else 0) cid this)"
    and push: "\<forall>this p l r. P this \<longrightarrow> routes this p = Some l \<longrightarrow>
                   P (this\<lparr>routes := (routes this)(p \<mapsto> l @ [r])\<rparr>)"
  shows "P this \<Longrightarrow> P (instance_after (collect_controllers J ms this))"
proof (induction ms arbitrary: this)
  case Nil
  then show ?case by simp
next
  case (Cons m ms)
  have P1: "P (instance_after (collectRoute J m this))"
    using Cons.prems by (rule kept_collectRoute[OF sp push])
  show ?case
  proof (cases "collectRoute J m this")
    case (Inl t)
    with P1 show ?thesis by simp
  next
    case (Inr this')
    with P1 have "P this'" by simp
    from Cons.IH[OF this] Inr show ?thesis by simp
  qed
qed

lemma kept_collect_functions:
  assumes sp: "\<forall>this p cid. P this \<longrightarrow> P (set_prefix p (if p = ''/'' then - 999 else 0) cid this)"
    and push: "\<forall>this p l r. P this \<longrightarrow> routes this p = Some l \<longrightarrow>
                   P (this\<lparr>routes := (routes this)(p \<mapsto> l @ [r])\<rparr>)"
  shows "P this \<Longrightarrow> P (instance_after (collect_functions ms this))"
proof (induction ms arbitrary: this)
  case Nil
  then show ?case by simp
next
  case (Cons m ms)
  have P1: "P (instance_after (collectFunctionRoute m this))"
    using Cons.prems by (rule kept_collectFunctionRoute[OF sp push])
  show ?case
  proof (cases "collectFunctionRoute m this")
    case (Inl t)
    with P1 show ?thesis by simp
  next
    case (Inr this')
    with P1 have "P this'" by simp
    from Cons.IH[OF this] Inr show ?thesis by simp
  qed
qed

lemma kept_collected:
  assumes sp: "\<forall>this p cid. P this \<longrightarrow> P (set_prefix p (if p = ''/'' then - 999 else 0) cid this)"
    and push: "\<forall>this p l r. P this \<longrightarrow> routes this p = Some l \<longrightarrow>
                   P (this\<lparr>routes := (routes this)(p \<mapsto> l @ [r])\<rparr>)"
    and "P this"
  shows "P (instance_after (collected J store this))"
proof -
  have P1: "P (instance_after (collect_controllers J (controllerModules store) this))"
    using assms(3) by (rule kept_collect_controllers[OF sp push])
  show ?thesis
  proof (cases "collect_controllers J (controllerModules store) this")
    case (Inl t)
    with P1 show ?thesis by (simp add: collected_def)
  next
    case (Inr this1)
    with P1 have "P this1" by simp
    then have "P (instance_after (collect_functions (fnModules store) this1))"
      by (rule kept_collect_functions[OF sp push])
    with Inr \<open>P this1\<close> show ?thesis by (simp add: collected_def)
  qed
qed

lemma analyze_collected:
  "analyze srt J store this =
     (case collected J store this of
        Inl t \<Rightarrow> Inl t
      | Inr this2 \<Rightarrow>
          (case filter_empty (routesPriority this2) (routes this2) of
             Inl (e, table) \<Rightarrow> Inl (e, this2\<lparr>routes := table\<rparr>)
           | Inr (kept, table) \<Rightarrow>
               Inr (this2\<lparr>routes := (\<lambda>group_prefix.
                             map_option (\<lambda>routerInfo. map router_info.truncate (sortRouter srt routerInfo))
                               (table group_prefix)),
                          routesPriority := array_sort prefix_cmp kept\<rparr>)))"
  by (simp add: analyze_def collected_def split: sum.splits)

subsection \<open>The ready flag and the options\<close>


subsection \<open>Priorities\<close>

lemma filter_empty_subset:
  "filter_empty items table = Inr (kept, table') \<Longrightarrow> set kept \<subseteq> set items"
proof (induction items arbitrary: table kept table')
  case Nil
  then show ?case by simp
next
  case (Cons item rest)
  from Cons.prems show ?case
    by (fastforce split: option.splits if_splits sum.splits prod.splits dest: Cons.IH)
qed

lemma analyze_priority_ok:
  assumes "\<forall>g\<in>set (routesPriority this). priority_ok g"
  shows "\<forall>g\<in>set (routesPriority (instance_after (analyze srt J store this))). priority_ok g"
proof -
  let ?P = "\<lambda>t. \<forall>g\<in>set (routesPriority t). priority_ok g"
  have sp: "\<forall>this p cid. ?P this \<longrightarrow> ?P (set_prefix p (if p = ''/'' then - 999 else 0) cid this)"
    by (simp add: set_prefix_def priority_ok_def)
  have push: "\<forall>this p l r. ?P this \<longrightarrow> routes this p = Some l \<longrightarrow>
                   ?P (this\<lparr>routes := (routes this)(p \<mapsto> l @ [r])\<rparr>)"
    by simp
  have P2: "?P (instance_after (collected J store this))"
    using assms by (rule kept_collected[where P = ?P, OF sp push])
  show ?thesis
  proof (cases "collected J store this")
    case (Inl t)
    with P2 show ?thesis by (simp add: analyze_collected)
  next
    case (Inr this2)
    with P2 have ok: "?P this2" by simp
    show ?thesis
    proof (cases "filter_empty (routesPriority this2) (routes this2)")
      case (Inl t)
      with Inr ok show ?thesis by (cases t) (simp add: analyze_collected)
    next
      case (Inr kt)
      obtain kept table where kt: "kt = (kept, table)" by (cases kt)
      with Inr filter_empty_subset have "set kept \<subseteq> set (routesPriority this2)" by blast
      with ok have "\<forall>g\<in>set (array_sort prefix_cmp kept). priority_ok g"
        by (auto simp: set_array_sort)
      with \<open>collected J store this = Inr this2\<close> Inr kt show ?thesis
        by (simp add: analyze_collected)
    qed
  qed
qed


text \<open>
  C10. Every priority record has the priority \<open>-999\<close> if its prefix is \<open>/\<close> and
  the priority 0 otherwise: an instance that holds only such records, as a new one does,
  holds only such records after a pass, whether the pass returns or throws.
\<close>

theorem analyze_priorities:
  assumes "list_all priority_ok (routesPriority this)"
  shows "list_all priority_ok (routesPriority (instance_after (analyze srt J store this)))"
  using assms analyze_priority_ok[of this srt J store] by (simp add: list_all_iff)

theorem analyze_priorities_witness:
  "list_all priority_ok (routesPriority (new_collector no_options)) \<and>
   list_all priority_ok
     (routesPriority (instance_after (analyze array_sort joinURLPath sample_store (new_collector no_options)))) \<and>
   map rp_prefix
     (routesPriority (instance_after (analyze array_sort joinURLPath sample_store (new_collector no_options))))
     = [''/api'', ''/''] \<and>
   map rp_priority
     (routesPriority (instance_after (analyze array_sort joinURLPath sample_store (new_collector no_options))))
     = [0, - 999]"
proof -
  have h: "list_all priority_ok (routesPriority (new_collector no_options))"
    by (simp add: new_collector_def)
  have v: "map rp_prefix
     (routesPriority (instance_after (analyze array_sort joinURLPath sample_store (new_collector no_options))))
     = [''/api'', ''/''] \<and>
   map rp_priority
     (routesPriority (instance_after (analyze array_sort joinURLPath sample_store (new_collector no_options))))
     = [0, - 999]"
    by code_simp
  show ?thesis
    using h v analyze_priorities[OF h, of array_sort joinURLPath sample_store] by simp
qed

subsection \<open>Groups\<close>

lemma group_inv_new: "group_inv (new_collector opts)"
  by (simp add: group_inv_def new_collector_def)

lemma group_inv_set_prefix: "group_inv this \<Longrightarrow> group_inv (set_prefix p pri cid this)"
  by (auto simp: group_inv_def set_prefix_def)

lemma group_inv_push:
  "group_inv this \<Longrightarrow> routes this p = Some l \<Longrightarrow>
   group_inv (this\<lparr>routes := (routes this)(p \<mapsto> l')\<rparr>)"
  by (auto simp: group_inv_def)

lemma group_inv_collected:
  assumes "group_inv this"
  shows "group_inv (instance_after (collected J store this))"
proof -
  have sp: "\<forall>this p cid. group_inv this \<longrightarrow>
              group_inv (set_prefix p (if p = ''/'' then - 999 else 0) cid this)"
    by (simp add: group_inv_set_prefix)
  have push: "\<forall>this p l r. group_inv this \<longrightarrow> routes this p = Some l \<longrightarrow>
                   group_inv (this\<lparr>routes := (routes this)(p \<mapsto> l @ [r])\<rparr>)"
    by (simp add: group_inv_push)
  from assms show ?thesis by (rule kept_collected[where P = group_inv, OF sp push])
qed

lemma filter_empty_Inr:
  "distinct (map rp_prefix items) \<Longrightarrow> set (map rp_prefix items) \<subseteq> dom table \<Longrightarrow>
   filter_empty items table =
     Inr (filter (\<lambda>i. table (rp_prefix i) \<noteq> Some []) items,
          (\<lambda>p. if p \<in> set (map rp_prefix items) \<and> table p = Some [] then None else table p))"
proof (induction items arbitrary: table)
  case Nil
  then show ?case by simp
next
  case (Cons item rest)
  from Cons.prems obtain l where l: "table (rp_prefix item) = Some l" by auto
  from Cons.prems have d: "distinct (map rp_prefix rest)" by simp
  from Cons.prems have "rp_prefix item \<notin> rp_prefix ` set rest" by simp
  then have notin: "\<forall>x\<in>set rest. rp_prefix x \<noteq> rp_prefix item"
    by (metis imageI)
  show ?case
  proof (cases "l = []")
    case False
    from Cons.prems d have "filter_empty rest table =
       Inr (filter (\<lambda>i. table (rp_prefix i) \<noteq> Some []) rest,
            (\<lambda>p. if p \<in> set (map rp_prefix rest) \<and> table p = Some [] then None else table p))"
      by (intro Cons.IH) auto
    with l False show ?thesis by (auto intro!: ext)
  next
    case True
    let ?t = "table(rp_prefix item := None)"
    from Cons.prems notin have sub: "set (map rp_prefix rest) \<subseteq> dom ?t"
      by auto
    have "filter_empty rest ?t =
       Inr (filter (\<lambda>i. ?t (rp_prefix i) \<noteq> Some []) rest,
            (\<lambda>p. if p \<in> set (map rp_prefix rest) \<and> ?t p = Some [] then None else ?t p))"
      using d sub by (rule Cons.IH)
    moreover have "filter (\<lambda>i. ?t (rp_prefix i) \<noteq> Some []) rest =
                   filter (\<lambda>i. table (rp_prefix i) \<noteq> Some []) rest"
      using notin by (intro filter_cong) auto
    moreover have "(\<lambda>p. if p \<in> set (map rp_prefix rest) \<and> ?t p = Some [] then None else ?t p) =
       (\<lambda>p. if p \<in> set (map rp_prefix (item # rest)) \<and> table p = Some [] then None else table p)"
      using l True by (auto intro!: ext)
    ultimately show ?thesis using l True by simp
  qed
qed


lemma length_sortRouter: "ecma_sort srt \<Longrightarrow> length (sortRouter srt l) = length l"
proof -
  assume "ecma_sort srt"
  then have "mset (sortRouter srt l) = mset (map sort_map l)"
    unfolding ecma_sort_def sortRouter_def by blast
  then have "size (mset (sortRouter srt l)) = size (mset (map sort_map l))" by simp
  then show ?thesis by simp
qed

text \<open>After a pass that returns, from an instance whose groups are in order.\<close>

lemma analyze_Inr_groups:
  assumes e: "ecma_sort srt" and inv: "group_inv this" and ok: "analyze srt J store this = Inr this'"
  shows "(\<forall>p l. routes this' p = Some l \<longrightarrow> l \<noteq> []) \<and>
         set (map rp_prefix (routesPriority this')) = dom (routes this') \<and>
         distinct (map rp_prefix (routesPriority this'))"
proof -
  from ok obtain this2 where c: "collected J store this = Inr this2"
    by (auto simp: analyze_collected split: sum.splits)
  with group_inv_collected[OF inv, of J store] have inv2: "group_inv this2" by simp
  let ?items = "routesPriority this2" and ?table = "routes this2"
  let ?kept = "filter (\<lambda>i. ?table (rp_prefix i) \<noteq> Some []) ?items"
  let ?table' = "\<lambda>p. if p \<in> set (map rp_prefix ?items) \<and> ?table p = Some [] then None else ?table p"
  from inv2 have f: "filter_empty ?items ?table = Inr (?kept, ?table')"
    by (intro filter_empty_Inr) (auto simp: group_inv_def)
  with ok c have this': "this' = this2\<lparr>routes := (\<lambda>group_prefix.
                             map_option (\<lambda>routerInfo. map router_info.truncate (sortRouter srt routerInfo))
                               (?table' group_prefix)),
                          routesPriority := array_sort prefix_cmp ?kept\<rparr>"
    by (simp add: analyze_collected)
  from inv2 have dom: "set (map rp_prefix ?items) = dom ?table" by (simp add: group_inv_def)
  have 1: "\<forall>p l. routes this' p = Some l \<longrightarrow> l \<noteq> []"
  proof (intro allI impI)
    fix p l
    assume "routes this' p = Some l"
    with this' obtain l0 where l0: "?table' p = Some l0"
      "l = map router_info.truncate (sortRouter srt l0)" by auto
    from l0(1) have "?table p = Some l0" by (auto split: if_splits)
    with l0(1) dom have "l0 \<noteq> []" by (auto split: if_splits)
    with l0(2) length_sortRouter[OF e, of l0] show "l \<noteq> []" by auto
  qed
  have "set (map rp_prefix (array_sort prefix_cmp ?kept)) = rp_prefix ` set ?kept"
    by (simp add: set_array_sort)
  also have "\<dots> = {p \<in> dom ?table. ?table p \<noteq> Some []}"
    using dom by auto
  also have "\<dots> = dom (routes this')"
    using dom by (auto simp: this' dom_def split: if_splits)
  finally have 2: "set (map rp_prefix (routesPriority this')) = dom (routes this')"
    by (simp add: this')
  have "mset (map rp_prefix (array_sort prefix_cmp ?kept)) = mset (map rp_prefix ?kept)"
    by (simp add: mset_array_sort)
  moreover from inv2 have "distinct (map rp_prefix ?kept)"
    by (simp add: group_inv_def distinct_map_filter)
  ultimately have "distinct (map rp_prefix (array_sort prefix_cmp ?kept))"
    using mset_eq_imp_distinct_iff by blast
  then have 3: "distinct (map rp_prefix (routesPriority this'))"
    by (simp add: this')
  from 1 2 3 show ?thesis by blast
qed

lemma group_inv_analyze:
  assumes "ecma_sort srt" and "group_inv this"
  shows "group_inv (instance_after (analyze srt J store this))"
proof (cases "analyze srt J store this")
  case (Inr this')
  with analyze_Inr_groups[OF assms Inr] show ?thesis by (simp add: group_inv_def)
next
  case (Inl t)
  from group_inv_collected[OF assms(2), of J store]
  have c: "group_inv (instance_after (collected J store this))" .
  show ?thesis
  proof (cases "collected J store this")
    case l: (Inl t')
    with c Inl show ?thesis by (simp add: analyze_collected)
  next
    case r: (Inr this2)
    with c have "group_inv this2" by simp
    then have "filter_empty (routesPriority this2) (routes this2) =
       Inr (filter (\<lambda>i. routes this2 (rp_prefix i) \<noteq> Some []) (routesPriority this2),
          (\<lambda>p. if p \<in> set (map rp_prefix (routesPriority this2)) \<and> routes this2 p = Some []
               then None else routes this2 p))"
      by (intro filter_empty_Inr) (auto simp: group_inv_def)
    with r Inl show ?thesis by (simp add: analyze_collected)
  qed
qed

subsection \<open>The read operations\<close>

text \<open>A call that no other call overlaps, on an instance that is not ready and on a ready one.\<close>

lemma read_alone_pass:
  "\<not> isReady this \<Longrightarrow>
   read_alone srt J store op this =
     (case analyze srt J store this of
        Inl (e, this') \<Rightarrow> Inl (e, this')
      | Inr this1 \<Rightarrow> Inr (view_of op (this1\<lparr>isReady := True\<rparr>), this1\<lparr>isReady := True\<rparr>))"
  by (auto simp: read_alone_def read_call_def read_resume_def Let_def split: sum.splits)

lemma read_alone_ready:
  "isReady this \<Longrightarrow> read_alone srt J store op this = Inr (view_of op this, this)"
  by (simp add: read_alone_def read_call_def)

lemma read_alone_Inr:
  "read_alone srt J store op this = Inr (v, this') \<Longrightarrow> isReady this' \<and> v = view_of op this'"
  by (cases "isReady this") (auto simp: read_alone_pass read_alone_ready split: sum.splits)


lemma read_resume_Inr:
  "read_resume op outcome this = Inr (v, this') \<Longrightarrow>
   outcome = None \<and> this' = this\<lparr>isReady := True\<rparr> \<and> v = view_of op this'"
  by (auto simp: read_resume_def Let_def split: option.splits)

text \<open>The steps of a run are the two parts of a call.\<close>

lemma step_Call:
  "step srt J (Call store) m =
     (case read_call srt J store (inst m) of
        (Returns, this') \<Rightarrow> m
      | (Awaits outcome, this') \<Rightarrow>
          m\<lparr>inst := this', pending := pending m @ [outcome], passes := Suc (passes m)\<rparr>)"
  by (auto simp: read_call_def split: sum.splits)

lemma step_Resume:
  "pending m = outcome # rest \<Longrightarrow>
   step srt J Resume m =
     m\<lparr>inst := (case read_resume op outcome (inst m) of Inl (e, this') \<Rightarrow> this' | Inr (v, this') \<Rightarrow> this'),
       pending := rest\<rparr>"
  by (auto simp: read_resume_def Let_def split: option.splits)

lemma run_call_resume:
  "inst (run srt J [Call store, Resume] \<lparr>inst = this, pending = [], passes = n\<rparr>) =
     (case read_alone srt J store op this of Inl (e, this') \<Rightarrow> this' | Inr (v, this') \<Rightarrow> this') \<and>
   passes (run srt J [Call store, Resume] \<lparr>inst = this, pending = [], passes = n\<rparr>) =
     (if isReady this then n else Suc n)"
  by (auto simp: run_def read_alone_def read_call_def read_resume_def Let_def split: sum.splits)

lemma group_inv_run:
  assumes "ecma_sort srt"
  shows "group_inv (inst m) \<Longrightarrow> group_inv (inst (run srt J events m))"
proof (induction events arbitrary: m)
  case Nil
  then show ?case by (simp add: run_def)
next
  case (Cons ev events)
  have "group_inv (inst (step srt J ev m))"
  proof (cases ev)
    case (Call store)
    from group_inv_analyze[OF assms Cons.prems, of J store] Cons.prems Call
    show ?thesis by (auto split: sum.splits)
  next
    case Resume
    from Cons.prems have "group_inv ((inst m)\<lparr>isReady := True\<rparr>)" by (simp add: group_inv_def)
    with Cons.prems Resume show ?thesis by (auto split: list.splits option.splits)
  qed
  from Cons.IH[OF this] show ?case by (simp add: run_def)
qed

subsection \<open>Groups without entries\<close>




subsection \<open>The order of the groups\<close>

lemma consistent_prefix_cmp: "consistent_on prefix_cmp S"
  by (auto simp: consistent_on_def prefix_cmp_def)


text \<open>
  The comparator of the prefix sort is consistent for every list, so ECMAScript settles
  the result of the sort: every runtime returns what \<open>array_sort\<close> returns.
\<close>

lemma prefix_sort_settled:
  assumes "ecma_sort srt"
  shows "srt prefix_cmp xs = array_sort prefix_cmp xs"
  using assms consistent_prefix_cmp by (rule ecma_sort_settled)




subsection \<open>Passes that throw, and calls after a pass\<close>


lemma step_ready:
  assumes "isReady (inst m)"
  shows "inst (step srt J ev m) = inst m \<and> passes (step srt J ev m) = passes m"
proof (cases ev)
  case (Call store)
  with assms show ?thesis by simp
next
  case Resume
  from assms have "(inst m)\<lparr>isReady := True\<rparr> = inst m" by (cases "inst m") simp
  with Resume show ?thesis by (auto split: list.splits option.splits)
qed

lemma run_ready:
  "isReady (inst m) \<Longrightarrow>
   inst (run srt J events m) = inst m \<and> passes (run srt J events m) = passes m"
proof (induction events arbitrary: m)
  case Nil
  then show ?case by (simp add: run_def)
next
  case (Cons ev events)
  from step_ready[OF Cons.prems, of srt J ev]
  have s: "inst (step srt J ev m) = inst m" "passes (step srt J ev m) = passes m" by simp_all
  with Cons.prems have "isReady (inst (step srt J ev m))" by simp
  from Cons.IH[OF this] s show ?case by (simp add: run_def)
qed









text \<open>
  Under overlap the flag does not stay false: a pass that throws leaves the flag as it is,
  and the resumption of a call whose pass returned sets it. Here the second call throws,
  the first is resumed, and a third call runs no pass.
\<close>

lemma failed_pass_overlapped:
  "pending (run array_sort joinURLPath [Call sample_store, Call sample_store]
     (start_run (new_collector no_options))) =
     [None, Some (MidwayDuplicateRouteError ''get /'' ''Home.index'' ''Home.index'')] \<and>
   isReady (inst (run array_sort joinURLPath [Call sample_store, Call sample_store, Resume, Resume]
     (start_run (new_collector no_options)))) \<and>
   passes (run array_sort joinURLPath
     [Call sample_store, Call sample_store, Resume, Resume, Call sample_store]
     (start_run (new_collector no_options))) = 2"
  by code_simp

text \<open>
  C7, as the code has it. When a read operation has returned, be it a call that no
  other call overlaps or the resumption of a suspended call, the instance is ready; every
  read operation on it, whatever the decorator store holds by then, returns its view of
  this instance and leaves the instance as it is; and no call that starts from then on
  runs \<open>analyze\<close>, in any order of calls and resumptions.
\<close>

theorem ready_is_final:
  assumes "read_alone srt J store op this = Inr (v, this') \<or>
           read_resume op outcome this = Inr (v, this')"
  shows "isReady this' \<and>
         read_alone srt' J' store' op' this' = Inr (view_of op' this', this') \<and>
         passes (run srt' J' events \<lparr>inst = this', pending = q, passes = n\<rparr>) = n \<and>
         inst (run srt' J' events \<lparr>inst = this', pending = q, passes = n\<rparr>) = this'"
proof -
  from assms have ready: "isReady this'"
  proof
    assume "read_alone srt J store op this = Inr (v, this')"
    from read_alone_Inr[OF this] show ?thesis by simp
  next
    assume "read_resume op outcome this = Inr (v, this')"
    from read_resume_Inr[OF this] show ?thesis by simp
  qed
  with run_ready[of "\<lparr>inst = this', pending = q, passes = n\<rparr>" srt' J' events]
    read_alone_ready[OF ready, of srt' J' store' op']
  show ?thesis by simp
qed

theorem ready_is_final_witness:
  "\<not> isl (read_alone array_sort joinURLPath sample_store GetRouterTable (new_collector no_options)) \<and>
   isReady (snd (projr (read_alone array_sort joinURLPath sample_store GetRouterTable
     (new_collector no_options)))) \<and>
   passes (run array_sort joinURLPath
     [Call sample_store, Resume, Call star_prefix_store, Call sample_store, Resume]
     \<lparr>inst = snd (projr (read_alone array_sort joinURLPath sample_store GetRouterTable
        (new_collector no_options))),
      pending = [], passes = 1\<rparr>) = 1 \<and>
   \<not> isl (read_alone array_sort joinURLPath star_prefix_store GetFlattenRouterTable
     (snd (projr (read_alone array_sort joinURLPath sample_store GetRouterTable
        (new_collector no_options)))))"
proof -
  let ?r = "read_alone array_sort joinURLPath sample_store GetRouterTable (new_collector no_options)"
  have l: "\<not> isl ?r" by code_simp
  then obtain v this' where r: "?r = Inr (v, this')" by (cases ?r) auto
  from ready_is_final[where srt' = array_sort and J' = joinURLPath
      and store' = star_prefix_store and op' = GetFlattenRouterTable
      and events = "[Call sample_store, Resume, Call star_prefix_store, Call sample_store, Resume]"
      and q = "[]" and n = 1, OF disjI1, OF r]
    l r
  show ?thesis by (simp del: step.simps)
qed

text \<open>
  C7 as it is worded fails for two first calls that overlap: the second call starts
  before the first is resumed, finds the ready flag still false and runs \<open>analyze\<close> a
  second time, over the groups that the first pass left; it throws a Duplicate Route
  error, while the first call goes on to return.
\<close>

theorem overlapping_first_calls:
  "passes (run array_sort joinURLPath [Call sample_store, Call sample_store, Resume, Resume]
            (start_run (new_collector no_options))) = 2 \<and>
   pending (run array_sort joinURLPath [Call sample_store, Call sample_store]
            (start_run (new_collector no_options))) =
     [None, Some (MidwayDuplicateRouteError ''get /'' ''Home.index'' ''Home.index'')]"
  by code_simp

subsection \<open>The samples under every runtime\<close>

text \<open>
  Where the comparator is consistent for the entries of every group that a pass sorts,
  the pass does not depend on the runtime's sort.
\<close>

lemma sortRouter_settled:
  assumes "ecma_sort srt" and "consistent_on sort_cmp (set (map sort_map l))"
  shows "sortRouter srt l = sortRouter array_sort l"
  unfolding sortRouter_def using assms by (rule ecma_sort_settled)

lemma analyze_any_runtime:
  assumes e: "ecma_sort srt" and inv: "group_inv this"
    and gc: "\<forall>this2. collected J store this = Inr this2 \<longrightarrow> groups_consistent this2"
  shows "analyze srt J store this = analyze array_sort J store this"
proof (cases "collected J store this")
  case (Inl t)
  then show ?thesis by (simp add: analyze_collected)
next
  case (Inr this2)
  with group_inv_collected[OF inv, of J store] have inv2: "group_inv this2" by simp
  from gc Inr have g: "groups_consistent this2" by simp
  let ?items = "routesPriority this2" and ?table = "routes this2"
  let ?kept = "filter (\<lambda>i. ?table (rp_prefix i) \<noteq> Some []) ?items"
  let ?table' = "\<lambda>p. if p \<in> set (map rp_prefix ?items) \<and> ?table p = Some [] then None else ?table p"
  from inv2 have f: "filter_empty ?items ?table = Inr (?kept, ?table')"
    by (intro filter_empty_Inr) (auto simp: group_inv_def)
  have "map_option (\<lambda>routerInfo. map router_info.truncate (sortRouter srt routerInfo)) (?table' p) =
        map_option (\<lambda>routerInfo. map router_info.truncate (sortRouter array_sort routerInfo)) (?table' p)"
    for p
  proof (cases "?table' p")
    case None
    then show ?thesis by simp
  next
    case (Some l)
    then have l: "?table p = Some l" by (auto split: if_splits)
    with inv2 have "p \<in> set (map rp_prefix ?items)" by (auto simp: group_inv_def)
    then obtain i where "i \<in> set ?items" "rp_prefix i = p" by auto
    with g l have "consistent_on sort_cmp (set (map sort_map l))"
      by (auto simp: groups_consistent_def list_all_iff)
    from sortRouter_settled[OF e this] Some show ?thesis by simp
  qed
  then have "(\<lambda>p. map_option (\<lambda>routerInfo. map router_info.truncate (sortRouter srt routerInfo)) (?table' p)) =
        (\<lambda>p. map_option (\<lambda>routerInfo. map router_info.truncate (sortRouter array_sort routerInfo)) (?table' p))"
    by (intro ext)
  with Inr f show ?thesis by (simp add: analyze_collected)
qed

lemma read_alone_any_runtime:
  assumes "ecma_sort srt" and "group_inv this"
    and "\<forall>this2. collected J store this = Inr this2 \<longrightarrow> groups_consistent this2"
  shows "read_alone srt J store op this = read_alone array_sort J store op this"
  using analyze_any_runtime[OF assms] by (simp add: read_alone_def read_call_def)

lemma step_any_runtime:
  assumes "ecma_sort srt" and "group_inv (inst m)"
    and "\<forall>store this2. ev = Call store \<longrightarrow> collected J store (inst m) = Inr this2 \<longrightarrow>
           groups_consistent this2"
  shows "step srt J ev m = step array_sort J ev m"
proof (cases ev)
  case (Call store)
  with assms(3) have "\<forall>this2. collected J store (inst m) = Inr this2 \<longrightarrow> groups_consistent this2"
    by simp
  from analyze_any_runtime[OF assms(1,2) this] Call show ?thesis by simp
next
  case Resume
  then show ?thesis by simp
qed

lemma run_append: "run srt J (events @ resumptions) m = run srt J resumptions (run srt J events m)"
  by (simp add: run_def)

lemma run_resumptions:
  "list_all (\<lambda>ev. ev = Resume) resumptions \<Longrightarrow> run srt J resumptions m = run array_sort J resumptions m"
proof (induction resumptions arbitrary: m)
  case Nil
  then show ?case by (simp add: run_def)
next
  case (Cons ev resumptions)
  then have "ev = Resume" by simp
  then have "step srt J ev m = step array_sort J ev m" by simp
  with Cons show ?case by (simp add: run_def)
qed

text \<open>Two first calls that overlap, the pass of the second thrown by a collecting loop.\<close>

lemma two_calls_any_runtime:
  assumes e: "ecma_sort srt" and inv: "group_inv this"
    and g1: "\<forall>this2. collected J store this = Inr this2 \<longrightarrow> groups_consistent this2"
    and g2: "isl (collected J store (inst (step array_sort J (Call store) (start_run this))))"
    and r: "list_all (\<lambda>ev. ev = Resume) resumptions"
  shows "run srt J ([Call store, Call store] @ resumptions) (start_run this) =
         run array_sort J ([Call store, Call store] @ resumptions) (start_run this)"
proof -
  let ?m1 = "step array_sort J (Call store) (start_run this)"
  from inv have i0: "group_inv (inst (start_run this))" by (simp add: start_run_def)
  from g1 have "\<forall>store' this2. Call store = Call store' \<longrightarrow>
      collected J store' (inst (start_run this)) = Inr this2 \<longrightarrow> groups_consistent this2"
    by (simp add: start_run_def)
  from step_any_runtime[OF e i0 this]
  have s1: "step srt J (Call store) (start_run this) = ?m1" .
  from group_inv_run[OF ecma_sort_array_sort i0, of J "[Call store]"]
  have i1: "group_inv (inst ?m1)" by (simp add: run_def)
  from g2 have "\<forall>store' this2. Call store = Call store' \<longrightarrow>
      collected J store' (inst ?m1) = Inr this2 \<longrightarrow> groups_consistent this2"
    by auto
  from step_any_runtime[OF e i1 this]
  have s2: "step srt J (Call store) ?m1 = step array_sort J (Call store) ?m1" .
  from s1 s2 have "run srt J [Call store, Call store] (start_run this) =
                   run array_sort J [Call store, Call store] (start_run this)"
    by (simp add: run_def)
  with run_resumptions[OF r] show ?thesis by (simp only: run_append)
qed

text \<open>
  The samples of the counterexamples give every runtime what they give \<open>array_sort\<close>:
  the pass over the controller with the star, and the next call; the call over the
  controller with the short prefix; two first calls that overlap, and their resumptions.
\<close>

lemma samples_any_runtime:
  assumes e: "ecma_sort srt"
  shows "analyze srt joinURLPath star_prefix_store (new_collector no_options) =
         analyze array_sort joinURLPath star_prefix_store (new_collector no_options)"
    and "read_alone srt joinURLPath star_prefix_store op
           (instance_after (analyze array_sort joinURLPath star_prefix_store (new_collector no_options))) =
         read_alone array_sort joinURLPath star_prefix_store op
           (instance_after (analyze array_sort joinURLPath star_prefix_store (new_collector no_options)))"
    and "read_alone srt joinURLPath short_prefix_store op (new_collector no_options) =
         read_alone array_sort joinURLPath short_prefix_store op (new_collector no_options)"
    and "list_all (\<lambda>ev. ev = Resume) resumptions \<Longrightarrow>
         run srt joinURLPath ([Call sample_store, Call sample_store] @ resumptions)
           (start_run (new_collector no_options)) =
         run array_sort joinURLPath ([Call sample_store, Call sample_store] @ resumptions)
           (start_run (new_collector no_options))"
    and "list_all (\<lambda>ev. ev = Resume) resumptions \<Longrightarrow>
         run srt joinURLPath ([Call idle_first_store, Call idle_first_store] @ resumptions)
           (start_run (new_collector no_options)) =
         run array_sort joinURLPath ([Call idle_first_store, Call idle_first_store] @ resumptions)
           (start_run (new_collector no_options))"
proof -
  let ?new = "new_collector no_options"
  have inv: "group_inv ?new" by (rule group_inv_new)
  have "isl (collected joinURLPath star_prefix_store ?new)" by code_simp
  then have g: "\<forall>this2. collected joinURLPath star_prefix_store ?new = Inr this2 \<longrightarrow>
                 groups_consistent this2" by auto
  from e inv g show "analyze srt joinURLPath star_prefix_store ?new =
      analyze array_sort joinURLPath star_prefix_store ?new"
    by (rule analyze_any_runtime)
  let ?left = "instance_after (analyze array_sort joinURLPath star_prefix_store ?new)"
  have inv': "group_inv ?left"
    using ecma_sort_array_sort inv by (rule group_inv_analyze)
  have "isl (collected joinURLPath star_prefix_store ?left)" by code_simp
  then have g': "\<forall>this2. collected joinURLPath star_prefix_store ?left = Inr this2 \<longrightarrow>
                 groups_consistent this2" by auto
  from e inv' g' show "read_alone srt joinURLPath star_prefix_store op ?left =
      read_alone array_sort joinURLPath star_prefix_store op ?left"
    by (rule read_alone_any_runtime)
  have "groups_consistent (projr (collected joinURLPath short_prefix_store ?new))" by code_simp
  then have gs: "\<forall>this2. collected joinURLPath short_prefix_store ?new = Inr this2 \<longrightarrow>
                 groups_consistent this2" by auto
  from e inv gs show "read_alone srt joinURLPath short_prefix_store op ?new =
      read_alone array_sort joinURLPath short_prefix_store op ?new"
    by (rule read_alone_any_runtime)
  have "groups_consistent (projr (collected joinURLPath sample_store ?new))" by code_simp
  then have g1: "\<forall>this2. collected joinURLPath sample_store ?new = Inr this2 \<longrightarrow>
                 groups_consistent this2" by auto
  have g2: "isl (collected joinURLPath sample_store
                  (inst (step array_sort joinURLPath (Call sample_store) (start_run ?new))))"
    by code_simp
  show "run srt joinURLPath ([Call sample_store, Call sample_store] @ resumptions) (start_run ?new) =
        run array_sort joinURLPath ([Call sample_store, Call sample_store] @ resumptions) (start_run ?new)"
    if "list_all (\<lambda>ev. ev = Resume) resumptions"
    using e inv g1 g2 that by (rule two_calls_any_runtime)
  have "groups_consistent (projr (collected joinURLPath idle_first_store ?new))" by code_simp
  then have h1: "\<forall>this2. collected joinURLPath idle_first_store ?new = Inr this2 \<longrightarrow>
                 groups_consistent this2" by auto
  have h2: "isl (collected joinURLPath idle_first_store
                  (inst (step array_sort joinURLPath (Call idle_first_store) (start_run ?new))))"
    by code_simp
  show "run srt joinURLPath ([Call idle_first_store, Call idle_first_store] @ resumptions) (start_run ?new) =
        run array_sort joinURLPath ([Call idle_first_store, Call idle_first_store] @ resumptions) (start_run ?new)"
    if "list_all (\<lambda>ev. ev = Resume) resumptions"
    using e inv h1 h2 that by (rule two_calls_any_runtime)
qed


end
